theory Spec2Isabelle
  imports Main "HOL-Library.Char_ord" "HOL-Library.List_Lexorder" "HOL-Library.Multiset"
begin

section \<open>Data model\<close>

text \<open>
  Nodes and switches are Python strings.  A \<open>char\<close> stands for a code point below 256, so
  the strings covered are those of the Latin-1 range.  \<open>sorted\<close> on a list of strings is
  the lexicographic order on code points, which is the order of \<open>char list\<close> here.
  A Python \<open>dict\<close> iterates in insertion order, so the switch grouping
  \<open>switch_to_nodes\<close> is an association list (keys pairwise distinct); dictionaries that
  are only looked up (\<open>node_to_switch\<close>, the hierarchy) are maps.
\<close>

type_synonym node = string
type_synonym switch = string
type_synonym switch_groups = "(switch \<times> node list) list"

text \<open>
  The hierarchy is the dict with the two entries \<open>'parents'\<close> and \<open>'children'\<close>; an entry
  may be missing (\<open>None\<close>).  The parents entry maps a leaf switch to the text after
  \<open>Switches=\<close>, as \<open>parse_topology_file\<close> stores it.
\<close>

record switch_hierarchy =
  parents :: "(switch \<rightharpoonup> string) option"
  children :: "(switch \<rightharpoonup> switch list) option"

datatype error = ValueError | IndexError | ZeroDivisionError

section \<open>Switch distance (parsers.py, calculate\_switch\_distance)\<close>

text \<open>Truth value of \<open>parents.get(switch)\<close>: \<open>None\<close> and the empty string are falsy.\<close>

definition truthy :: "string option \<Rightarrow> bool" where
  "truthy v = (case v of None \<Rightarrow> False | Some s \<Rightarrow> s \<noteq> [])"

definition calculate_switch_distance :: "switch \<Rightarrow> switch \<Rightarrow> switch_hierarchy \<Rightarrow> int" where
  "calculate_switch_distance switch1 switch2 hierarchy =
     (if switch1 = switch2 then 0
      else
        let ps = (case parents hierarchy of None \<Rightarrow> Map.empty | Some p \<Rightarrow> p) in
        if ps switch1 = None \<or> ps switch2 = None then 2
        else
          let parent1 = ps switch1; parent2 = ps switch2 in
          if truthy parent1 \<and> truthy parent2 \<and> parent1 = parent2 then 1
          else 2)"

section \<open>Python list slices\<close>

text \<open>
  A slice bound \<open>i\<close> of \<open>xs[i:j]\<close> counts from the end when negative and is clamped to
  \<open>0 .. len(xs)\<close>.
\<close>

definition slice_bound :: "'a list \<Rightarrow> int \<Rightarrow> nat" where
  "slice_bound xs i =
     (let n = int (length xs) in if i < 0 then nat (max 0 (n + i)) else nat (min i n))"

definition slice_to :: "'a list \<Rightarrow> int \<Rightarrow> 'a list" where
  \<comment> \<open>\<open>xs[:j]\<close>\<close>
  "slice_to xs j = take (slice_bound xs j) xs"

definition slice_from :: "'a list \<Rightarrow> int \<Rightarrow> 'a list" where
  \<comment> \<open>\<open>xs[i:]\<close>\<close>
  "slice_from xs i = drop (slice_bound xs i) xs"

definition slice_between :: "'a list \<Rightarrow> int \<Rightarrow> int \<Rightarrow> 'a list" where
  \<comment> \<open>\<open>xs[i:j]\<close>\<close>
  "slice_between xs i j = take (slice_bound xs j - slice_bound xs i) (drop (slice_bound xs i) xs)"

section \<open>Switch grouper (parsers.py, group\_nodes\_by\_switch)\<close>

text \<open>\<open>d.setdefault(k, []).append(v)\<close> on an insertion-ordered dict.\<close>

fun setdefault_append :: "'k \<Rightarrow> 'v \<Rightarrow> ('k \<times> 'v list) list \<Rightarrow> ('k \<times> 'v list) list" where
  "setdefault_append k v [] = [(k, [v])]"
| "setdefault_append k v ((k', vs) # d) =
     (if k' = k then (k', vs @ [v]) # d else (k', vs) # setdefault_append k v d)"

text \<open>One iteration of the loop over \<open>allocated_nodes\<close>; the state is
  \<open>(switch_to_nodes, missing_nodes)\<close>.\<close>

definition group_step ::
  "(node \<rightharpoonup> switch) \<Rightarrow> switch_groups \<times> node list \<Rightarrow> node \<Rightarrow> switch_groups \<times> node list" where
  "group_step node_to_switch st node =
     (let switch = node_to_switch node in
      if truthy switch then (setdefault_append (the switch) node (fst st), snd st)
      else (fst st, snd st @ [node]))"

definition group_nodes_loop ::
  "node list \<Rightarrow> (node \<rightharpoonup> switch) \<Rightarrow> switch_groups \<times> node list" where
  "group_nodes_loop allocated node_to_switch = foldl (group_step node_to_switch) ([], []) allocated"

definition group_nodes_by_switch :: "node list \<Rightarrow> (node \<rightharpoonup> switch) \<Rightarrow> switch_groups" where
  "group_nodes_by_switch allocated node_to_switch = fst (group_nodes_loop allocated node_to_switch)"

section \<open>Partitioning strategies (strategies.py)\<close>

text \<open>
  \<open>switch_to_nodes[switch]\<close>.  Every lookup in the strategies uses a key taken from the
  dict itself, so the \<open>KeyError\<close> branch is never reached; it reads as the empty list.
\<close>

definition nodes_of :: "switch_groups \<Rightarrow> switch \<Rightarrow> node list" where
  "nodes_of switch_to_nodes switch =
     (case map_of switch_to_nodes switch of Some nodes \<Rightarrow> nodes | None \<Rightarrow> [])"

definition handle_single_switch_case :: "switch_groups \<Rightarrow> int \<Rightarrow> node list \<times> node list" where
  "handle_single_switch_case switch_to_nodes workload_a_nodes =
     (let all_nodes = concat (map (\<lambda>(switch, nodes). sort nodes) switch_to_nodes)
      in (slice_to all_nodes workload_a_nodes, slice_from all_nodes workload_a_nodes))"

subsection \<open>The even strategy\<close>

text \<open>
  The proportional share \<open>round(num_nodes * (p / q))\<close> is computed in floating point.
  It is a parameter \<open>rnd num_nodes p q\<close> of the model.  Division by \<open>q = 0\<close> raises.

  \<open>round_half_even\<close> is not that float computation: it rounds the exact rational
  \<open>n * p / q\<close>, halves to the even integer.  The two differ where the float product
  misses an exact half, as at \<open>n = 11\<close>, \<open>p = 15\<close>, \<open>q = 22\<close> (exactly 7.5, so 8 here;
  the float product is below 7.5, so 7 in the code).  It only instantiates \<open>rnd\<close> at
  concrete inputs where every product is far from a half or is a half that the float
  represents exactly (\<open>3 * 0.4\<close>, \<open>2 * 0.5\<close>, \<open>1 * 0.5\<close>), where both give the same.
\<close>

definition round_half_even :: "int \<Rightarrow> int \<Rightarrow> int \<Rightarrow> int" where
  "round_half_even n p q =
     (let x = (if q < 0 then - (n * p) else n * p); d = \<bar>q\<bar>;
          f = x div d; r = x mod d
      in if 2 * r < d then f
         else if 2 * r > d then f + 1
         else if even f then f else f + 1)"

definition even_counts ::
  "(int \<Rightarrow> int \<Rightarrow> int \<Rightarrow> int) \<Rightarrow> int \<Rightarrow> int \<Rightarrow> int \<Rightarrow> int \<Rightarrow> int \<Rightarrow> error + (int \<times> int)" where
  "even_counts rnd workload_a_nodes workload_b_nodes num_nodes nodes_left_a nodes_left_b =
     (if num_nodes \<le> nodes_left_a + nodes_left_b then
        (if nodes_left_a = 0 then Inr (0, min num_nodes nodes_left_b)
         else if nodes_left_b = 0 then Inr (min num_nodes nodes_left_a, 0)
         else if nodes_left_a + nodes_left_b = 0 then Inl ZeroDivisionError
         else
           let a_count = min (rnd num_nodes nodes_left_a (nodes_left_a + nodes_left_b)) nodes_left_a
           in Inr (a_count, min (num_nodes - a_count) nodes_left_b))
      else
        (if workload_a_nodes = 0 then Inr (0, num_nodes)
         else if workload_b_nodes = 0 then Inr (num_nodes, 0)
         else if workload_a_nodes + workload_b_nodes = 0 then Inl ZeroDivisionError
         else
           let a_count = min (rnd num_nodes workload_a_nodes (workload_a_nodes + workload_b_nodes)) nodes_left_a
           in Inr (a_count, min (num_nodes - a_count) nodes_left_b)))"

text \<open>
  The loop over the sorted switches.  Its state is
  \<open>(workload_a, workload_b, allocated_nodes, total_a, total_b)\<close>; \<open>break\<close> returns the
  state as it is.
\<close>

type_synonym even_state = "node list \<times> node list \<times> node set \<times> int \<times> int"

fun even_loop ::
  "(int \<Rightarrow> int \<Rightarrow> int \<Rightarrow> int) \<Rightarrow> switch_groups \<Rightarrow> int \<Rightarrow> int \<Rightarrow> switch list \<Rightarrow> even_state
     \<Rightarrow> error + even_state" where
  "even_loop rnd switch_to_nodes workload_a_nodes workload_b_nodes [] st = Inr st"
| "even_loop rnd switch_to_nodes workload_a_nodes workload_b_nodes (switch # rest)
       (workload_a, workload_b, allocated_nodes, total_a, total_b) =
     (let nodes = sort (nodes_of switch_to_nodes switch);
          num_nodes = int (length nodes)
      in if total_a \<ge> workload_a_nodes \<and> total_b \<ge> workload_b_nodes
         then Inr (workload_a, workload_b, allocated_nodes, total_a, total_b)
         else
           let nodes_left_a = max 0 (workload_a_nodes - total_a);
               nodes_left_b = max 0 (workload_b_nodes - total_b)
           in case even_counts rnd workload_a_nodes workload_b_nodes num_nodes nodes_left_a nodes_left_b of
                Inl e \<Rightarrow> Inl e
              | Inr (a_count, b_count) \<Rightarrow>
                  even_loop rnd switch_to_nodes workload_a_nodes workload_b_nodes rest
                    (workload_a @ slice_to nodes a_count,
                     workload_b @ slice_between nodes a_count (a_count + b_count),
                     allocated_nodes \<union> set (slice_to nodes (a_count + b_count)),
                     total_a + a_count,
                     total_b + b_count))"

text \<open>
  \<open>sorted(S)\<close> of a Python set \<open>S\<close> sorts the elements in the order the set iterates
  them.  That order is the parameter \<open>iter\<close>: a function listing a finite set.
\<close>

definition evenly_split_nodes_between_workloads ::
  "(node set \<Rightarrow> node list) \<Rightarrow> (int \<Rightarrow> int \<Rightarrow> int \<Rightarrow> int) \<Rightarrow> switch_groups \<Rightarrow> int \<Rightarrow> int
     \<Rightarrow> error + (node list \<times> node list)" where
  "evenly_split_nodes_between_workloads iter rnd switch_to_nodes workload_a_nodes workload_b_nodes =
     (if length switch_to_nodes = 1
      then Inr (handle_single_switch_case switch_to_nodes workload_a_nodes)
      else
        let switches = sort (map fst switch_to_nodes);
            all_nodes = concat (map (\<lambda>switch. sort (nodes_of switch_to_nodes switch)) switches)
        in case even_loop rnd switch_to_nodes workload_a_nodes workload_b_nodes switches ([], [], {}, 0, 0) of
             Inl e \<Rightarrow> Inl e
           | Inr (workload_a, workload_b, allocated_nodes, total_a, total_b) \<Rightarrow>
               let unallocated_nodes = sort (iter (set all_nodes - allocated_nodes))
               in Inr (workload_a,
                       if unallocated_nodes \<noteq> [] then workload_b @ unallocated_nodes else workload_b))"

subsection \<open>The compact strategy\<close>

text \<open>The scan for the switch with the most nodes; the state is \<open>(largest_switch, most_nodes)\<close>.\<close>

definition largest_step :: "switch option \<times> nat \<Rightarrow> switch \<times> node list \<Rightarrow> switch option \<times> nat" where
  "largest_step st item =
     (if length (snd item) > snd st then (Some (fst item), length (snd item)) else st)"

definition find_largest_switch :: "switch_groups \<Rightarrow> switch option" where
  "find_largest_switch switch_to_nodes = fst (foldl largest_step (None, 0) switch_to_nodes)"

text \<open>
  The loop that fills workload A from the other switches, nearest first; the state is
  \<open>(workload_a, nodes_needed)\<close>.
\<close>

fun compact_fill :: "switch_groups \<Rightarrow> switch list \<Rightarrow> node list \<times> int \<Rightarrow> node list \<times> int" where
  "compact_fill switch_to_nodes [] st = st"
| "compact_fill switch_to_nodes (switch # rest) (workload_a, nodes_needed) =
     (let switch_nodes = sort (nodes_of switch_to_nodes switch);
          st' = (if int (length switch_nodes) \<le> nodes_needed
                 then (workload_a @ switch_nodes, nodes_needed - int (length switch_nodes))
                 else (workload_a @ slice_to switch_nodes nodes_needed, 0))
      in if snd st' \<le> 0 then st' else compact_fill switch_to_nodes rest st')"

text \<open>
  The other switches paired with their distance from the largest one, in insertion order
  and then sorted by distance (\<open>list.sort\<close> is stable, as \<open>sort_key\<close> is).
\<close>

definition remaining_switches ::
  "switch_groups \<Rightarrow> switch \<Rightarrow> switch_hierarchy \<Rightarrow> (switch \<times> int) list" where
  "remaining_switches switch_to_nodes largest hierarchy =
     sort_key snd
       (map (\<lambda>switch. (switch, calculate_switch_distance largest switch hierarchy))
          (filter (\<lambda>switch. switch \<noteq> largest) (map fst switch_to_nodes)))"

text \<open>The placement once the largest switch is known to hold at least one node.\<close>

definition compact_place ::
  "(node set \<Rightarrow> node list) \<Rightarrow> switch_groups \<Rightarrow> switch_hierarchy \<Rightarrow> node list \<Rightarrow> switch \<Rightarrow> int \<Rightarrow> int
     \<Rightarrow> node list \<times> node list" where
  "compact_place iter switch_to_nodes hierarchy all_nodes largest workload_a_nodes workload_b_nodes =
     (let sorted_nodes = sort (nodes_of switch_to_nodes largest);
          workload_a = [hd sorted_nodes];
          remaining0 = slice_from sorted_nodes 1;
          from_largest = min workload_b_nodes (int (length remaining0));
          workload_b = slice_to remaining0 from_largest;
          remaining = slice_from remaining0 from_largest;
          filled = compact_fill switch_to_nodes
                     (map fst (remaining_switches switch_to_nodes largest hierarchy))
                     (workload_a, workload_a_nodes - int (length workload_a));
          workload_a' = (if snd filled > 0 then fst filled @ slice_to remaining (snd filled)
                         else fst filled);
          nodes_needed_for_b = workload_b_nodes - int (length workload_b)
      in if nodes_needed_for_b > 0
         then
           let allocated_nodes = set (workload_a' @ workload_b);
               unallocated_nodes = sort (iter (set all_nodes - allocated_nodes))
           in (workload_a', workload_b @ slice_to unallocated_nodes nodes_needed_for_b)
         else (workload_a', workload_b))"

definition compact_split_nodes_between_workloads ::
  "(node set \<Rightarrow> node list) \<Rightarrow> switch_groups \<Rightarrow> (node \<rightharpoonup> switch) \<Rightarrow> switch_hierarchy \<Rightarrow> int \<Rightarrow> int
     \<Rightarrow> node list \<times> node list" where
  "compact_split_nodes_between_workloads iter switch_to_nodes node_to_switch hierarchy
       workload_a_nodes workload_b_nodes =
     (if length switch_to_nodes = 1
      then handle_single_switch_case switch_to_nodes workload_a_nodes
      else
        let all_nodes = concat (map snd switch_to_nodes);
            largest_switch = find_largest_switch switch_to_nodes
        in if \<not> truthy largest_switch then ([], [])
           else if length (nodes_of switch_to_nodes (the largest_switch)) < 1 then ([], [])
           else compact_place iter switch_to_nodes hierarchy all_nodes (the largest_switch)
                  workload_a_nodes workload_b_nodes)"

subsection \<open>What the strategies assume of the Python runtime\<close>

text \<open>Iterating a finite set yields each of its elements once, in some order.\<close>

definition valid_iter :: "(node set \<Rightarrow> node list) \<Rightarrow> bool" where
  "valid_iter iter = (\<forall>S. finite S \<longrightarrow> set (iter S) = S \<and> distinct (iter S))"

text \<open>
  For \<open>0 < p < q\<close> the quotient \<open>p / q\<close> is a float in \<open>(0, 1]\<close>, so the rounded product
  \<open>round(n * (p / q))\<close> lies between \<open>0\<close> and \<open>n\<close>.
\<close>

definition valid_rnd :: "(int \<Rightarrow> int \<Rightarrow> int \<Rightarrow> int) \<Rightarrow> bool" where
  "valid_rnd rnd = (\<forall>n p q. 0 \<le> n \<and> 0 < p \<and> p < q \<longrightarrow> 0 \<le> rnd n p q \<and> rnd n p q \<le> n)"

section \<open>Hostlist expander (parsers.py, expand\_nodes)\<close>

subsection \<open>The string operations it uses\<close>

text \<open>\<open>s.split(sep)\<close> for a separator of one character; the result is never empty.\<close>

fun split_char :: "char \<Rightarrow> string \<Rightarrow> string list" where
  "split_char c [] = [[]]"
| "split_char c (x # xs) =
     (if x = c then [] # split_char c xs
      else (case split_char c xs of p # ps \<Rightarrow> (x # p) # ps | [] \<Rightarrow> [[x]]))"

text \<open>
  \<open>s.split(sep)\<close> for a separator string (non-empty where it is used): scan from the left,
  cut at each occurrence, continue after it.  \<open>acc\<close> is the piece read so far.
\<close>

function split_str :: "string \<Rightarrow> string \<Rightarrow> string \<Rightarrow> string list" where
  "split_str sep acc s =
     (if s = [] then [acc]
      else if sep \<noteq> [] \<and> take (length sep) s = sep
        then acc # split_str sep [] (drop (length sep) s)
        else split_str sep (acc @ [hd s]) (tl s))"
  by pat_completeness auto
termination
  by (relation "measure (\<lambda>(sep, acc, s). length s)") auto

declare split_str.simps [simp del]

text \<open>
  Whitespace as \<open>str.split()\<close> and \<open>str.strip()\<close> see it: the code points below 256 for
  which \<open>str.isspace\<close> holds.
\<close>

definition is_space :: "char \<Rightarrow> bool" where
  "is_space c = (c \<in> {CHR 0x09, CHR 0x0A, CHR 0x0B, CHR 0x0C, CHR 0x0D,
                        CHR 0x1C, CHR 0x1D, CHR 0x1E, CHR 0x1F, CHR 0x20,
                        CHR 0x85, CHR 0xA0})"

definition strip :: "string \<Rightarrow> string" where
  "strip s = rev (dropWhile is_space (rev (dropWhile is_space s)))"

text \<open>\<open>s.split()[0]\<close>: the first whitespace-separated token; \<open>IndexError\<close> when there is none.\<close>

definition first_token :: "string \<Rightarrow> error + string" where
  "first_token s =
     (let t = takeWhile (\<lambda>c. \<not> is_space c) (dropWhile is_space s)
      in if t = [] then Inl IndexError else Inr t)"

text \<open>
  \<open>int(s)\<close>: optional surrounding whitespace, an optional sign, then decimal digits
  in which single underscores may separate digits.  \<open>None\<close> is the \<open>ValueError\<close>.

  The whitespace \<open>int\<close> skips is not that of \<open>str.strip()\<close>: it turns the whitespace
  code points from 127 on (here \<open>0x85\<close> and \<open>0xA0\<close>) into blanks and then skips the
  whitespace of C (\<open>0x09\<close> to \<open>0x0D\<close> and the blank), so \<open>0x1C\<close> to \<open>0x1F\<close> are not skipped.
  Below 256 the only decimal digits are \<open>0\<close> to \<open>9\<close>.

  \<open>max_str_digits\<close> is the interpreter's limit \<open>sys.get_int_max_str_digits()\<close> (4300 by
  default where it exists, 0 where it is switched off or absent): a literal of more than
  640 digits and more than the limit is refused.  The names written by
  \<open>format_0d\<close> never reach the limit of the converse conversion, since each number lies
  between two parsed ones.
\<close>

definition is_int_space :: "char \<Rightarrow> bool" where
  "is_int_space c = (c \<in> {CHR 0x09, CHR 0x0A, CHR 0x0B, CHR 0x0C, CHR 0x0D, CHR 0x20,
                            CHR 0x85, CHR 0xA0})"

definition is_digit :: "char \<Rightarrow> bool" where
  "is_digit c = (c \<in> set ''0123456789'')"

definition digit_value :: "char \<Rightarrow> int" where
  "digit_value c = int (length (takeWhile (\<lambda>d. d \<noteq> c) ''0123456789''))"

fun valid_digits :: "string \<Rightarrow> bool" where
  "valid_digits [] = False"
| "valid_digits [c] = is_digit c"
| "valid_digits (c # d # cs) =
     (is_digit c \<and> (if d = CHR ''_'' then valid_digits cs else valid_digits (d # cs)))"

definition py_int :: "nat \<Rightarrow> string \<Rightarrow> int option" where
  "py_int max_str_digits s =
     (let t = rev (dropWhile is_int_space (rev (dropWhile is_int_space s)));
          negative = (t \<noteq> [] \<and> hd t = CHR ''-'');
          body = (if t \<noteq> [] \<and> (hd t = CHR ''-'' \<or> hd t = CHR ''+'') then tl t else t);
          digits = length (filter is_digit body)
      in if valid_digits body
            \<and> \<not> (digits > 640 \<and> max_str_digits > 0 \<and> digits > max_str_digits)
         then let v = foldl (\<lambda>v c. 10 * v + digit_value c) 0 (filter (\<lambda>c. c \<noteq> CHR ''_'') body)
              in Some (if negative then - v else v)
         else None)"

text \<open>\<open>f"{num:0{padding}d}"\<close>: decimal, the sign first, zeros up to the width.\<close>

function digits_of :: "nat \<Rightarrow> string" where
  "digits_of n =
     (if n < 10 then [''0123456789'' ! n]
      else digits_of (n div 10) @ [''0123456789'' ! (n mod 10)])"
  by pat_completeness auto
termination
  by (relation "measure id") auto

declare digits_of.simps [simp del]

definition format_0d :: "int \<Rightarrow> nat \<Rightarrow> string" where
  "format_0d num padding =
     (let ds = digits_of (nat \<bar>num\<bar>);
          sign = (if num < 0 then ''-'' else [])
      in sign @ replicate (padding - length sign - length ds) CHR ''0'' @ ds)"

subsection \<open>The expansion\<close>

text \<open>
  One iteration of the loop over the comma-separated specifications: the names that the
  specification adds to \<open>expanded\<close>, or the exception raised.  Unpacking
  \<open>start_str, end_str = range_part.split('-')\<close> raises \<open>ValueError\<close> unless there are
  exactly two parts; \<open>range(start, end + 1)\<close> is empty when \<open>end < start\<close>.
\<close>

definition expand_spec :: "nat \<Rightarrow> string \<Rightarrow> error + string list" where
  "expand_spec max_str_digits spec =
     (if CHR ''['' \<in> set spec \<and> CHR '']'' \<in> set spec then
        (case split_char CHR ''['' spec of
           prefix # inner # _ \<Rightarrow>
             (let range_part = hd (split_char CHR '']'' inner) in
              if CHR ''-'' \<in> set range_part then
                (case split_char CHR ''-'' range_part of
                   [start_str, end_str] \<Rightarrow>
                     (case py_int max_str_digits start_str of
                        None \<Rightarrow> Inl ValueError
                      | Some start \<Rightarrow>
                          (case py_int max_str_digits end_str of
                             None \<Rightarrow> Inl ValueError
                           | Some end \<Rightarrow>
                               Inr (map (\<lambda>num. prefix @ format_0d num (length start_str))
                                      [start..end])))
                 | _ \<Rightarrow> Inl ValueError)
              else
                (case py_int max_str_digits range_part of
                   None \<Rightarrow> Inl ValueError
                 | Some num \<Rightarrow> Inr [prefix @ format_0d num (length range_part)]))
         | _ \<Rightarrow> Inl IndexError)
      else Inr [spec])"

fun expand_specs :: "nat \<Rightarrow> string list \<Rightarrow> string list \<Rightarrow> error + string list" where
  "expand_specs max_str_digits [] expanded = Inr expanded"
| "expand_specs max_str_digits (spec # rest) expanded =
     (case expand_spec max_str_digits spec of
        Inl e \<Rightarrow> Inl e
      | Inr names \<Rightarrow> expand_specs max_str_digits rest (expanded @ names))"

text \<open>\<open>raw_string.split("Nodes=")[1].split()[0]\<close>\<close>

definition nodes_part_of :: "string \<Rightarrow> error + string" where
  "nodes_part_of raw_string =
     (case split_str ''Nodes='' [] raw_string of
        _ # after # _ \<Rightarrow> first_token after
      | _ \<Rightarrow> Inl IndexError)"

definition expand_nodes :: "nat \<Rightarrow> string \<Rightarrow> error + string list" where
  "expand_nodes max_str_digits raw_string =
     (case nodes_part_of raw_string of
        Inl e \<Rightarrow> Inl e
      | Inr nodes_part \<Rightarrow> expand_specs max_str_digits (split_char CHR '','' nodes_part) [])"

section \<open>Topology model builder (parsers.py, parse\_topology\_file)\<close>

text \<open>
  What the loop does with a leaf-switch line once the regular expressions have matched:
  \<open>current_switch\<close> is the switch name and \<open>matched\<close> the text after \<open>Switches=\<close>.  The
  stripped text is stored as it is under \<open>'parents'\<close>, and the switch is appended to the
  children of each comma-separated parent.
\<close>

definition get_parents :: "switch_hierarchy \<Rightarrow> (switch \<rightharpoonup> string)" where
  "get_parents hierarchy = (case parents hierarchy of None \<Rightarrow> Map.empty | Some p \<Rightarrow> p)"

definition get_children :: "switch_hierarchy \<Rightarrow> (switch \<rightharpoonup> switch list)" where
  "get_children hierarchy = (case children hierarchy of None \<Rightarrow> Map.empty | Some c \<Rightarrow> c)"

definition add_child :: "switch \<Rightarrow> switch_hierarchy \<Rightarrow> switch \<Rightarrow> switch_hierarchy" where
  "add_child current_switch hierarchy parent =
     (let cs = get_children hierarchy;
          old = (case cs parent of None \<Rightarrow> [] | Some l \<Rightarrow> l)
      in hierarchy\<lparr>children := Some (cs(parent \<mapsto> old @ [current_switch]))\<rparr>)"

definition record_leaf_parents :: "switch \<Rightarrow> string \<Rightarrow> switch_hierarchy \<Rightarrow> switch_hierarchy" where
  "record_leaf_parents current_switch matched hierarchy =
     (let ps = strip matched;
          h = hierarchy\<lparr>parents := Some ((get_parents hierarchy)(current_switch \<mapsto> ps))\<rparr>
      in foldl (add_child current_switch) h (split_char CHR '','' ps))"

definition empty_hierarchy :: switch_hierarchy where
  "empty_hierarchy = \<lparr>parents = Some Map.empty, children = Some Map.empty\<rparr>"

section \<open>Properties\<close>

text \<open>
  C8.  For every switch hierarchy, the distance from a switch to itself is 0, and the
  distance is symmetric in its two switches.
\<close>

theorem distance_refl_sym:
  "calculate_switch_distance s s h = 0 \<and>
   calculate_switch_distance x y h = calculate_switch_distance y x h"
  by (auto simp: calculate_switch_distance_def Let_def)

theorem distance_refl_sym_witness:
  "calculate_switch_distance ''s1'' ''s1'' \<lparr>parents = Some [''s1'' \<mapsto> ''p1'', ''s2'' \<mapsto> ''p1''], children = None\<rparr> = 0 \<and>
   calculate_switch_distance ''s1'' ''s2'' \<lparr>parents = Some [''s1'' \<mapsto> ''p1'', ''s2'' \<mapsto> ''p1''], children = None\<rparr> =
   calculate_switch_distance ''s2'' ''s1'' \<lparr>parents = Some [''s1'' \<mapsto> ''p1'', ''s2'' \<mapsto> ''p1''], children = None\<rparr>"
  using distance_refl_sym [of "''s1''" "\<lparr>parents = Some [''s1'' \<mapsto> ''p1'', ''s2'' \<mapsto> ''p1''], children = None\<rparr>" "''s1''" "''s2''"]
  by simp

subsection \<open>The switch grouper\<close>

lemma nodes_of_setdefault_append:
  "nodes_of (setdefault_append k v d) k' = (if k' = k then nodes_of d k @ [v] else nodes_of d k')"
  by (induction d) (auto simp: nodes_of_def)

lemma keys_setdefault_append:
  "map fst (setdefault_append k v d) = (if k \<in> fst ` set d then map fst d else map fst d @ [k])"
  by (induction d) (auto simp: image_iff, force)

lemma distinct_setdefault_append:
  "distinct (map fst d) \<Longrightarrow> distinct (map fst (setdefault_append k v d))"
  by (simp add: keys_setdefault_append)

text \<open>The groups a run of the loop yields, started in any state.\<close>

lemma nodes_of_group_foldl:
  "nodes_of (fst (foldl (group_step m) st xs)) s =
     nodes_of (fst st) s @ filter (\<lambda>n. m n = Some s \<and> s \<noteq> []) xs"
proof (induction xs arbitrary: st)
  case Nil
  then show ?case by simp
next
  case (Cons x xs)
  have step: "nodes_of (fst (group_step m st x)) s =
      nodes_of (fst st) s @ filter (\<lambda>n. m n = Some s \<and> s \<noteq> []) [x]"
    by (cases "m x") (auto simp: group_step_def truthy_def nodes_of_setdefault_append)
  show ?case
    unfolding foldl_Cons Cons.IH [of "group_step m st x"] step by simp
qed

lemma nodes_of_group:
  "nodes_of (group_nodes_by_switch allocated m) s = filter (\<lambda>n. m n = Some s \<and> s \<noteq> []) allocated"
  using nodes_of_group_foldl [of m "([], [])" allocated s]
  by (simp add: group_nodes_by_switch_def group_nodes_loop_def nodes_of_def)

lemma distinct_group_foldl:
  "distinct (map fst (fst st)) \<Longrightarrow> distinct (map fst (fst (foldl (group_step m) st xs)))"
  by (induction xs arbitrary: st) (auto simp: group_step_def Let_def distinct_setdefault_append)

lemma distinct_group: "distinct (map fst (group_nodes_by_switch allocated m))"
  by (simp add: group_nodes_by_switch_def group_nodes_loop_def distinct_group_foldl)

text \<open>The grouper builds no empty group and uses no empty switch name.\<close>

lemma setdefault_append_wf:
  "\<forall>(k', vs) \<in> set d. k' \<noteq> [] \<and> vs \<noteq> [] \<Longrightarrow> k \<noteq> [] \<Longrightarrow>
   \<forall>(k', vs) \<in> set (setdefault_append k v d). k' \<noteq> [] \<and> vs \<noteq> []"
  by (induction d) (auto split: if_splits)

lemma group_foldl_wf:
  "\<forall>(k, vs) \<in> set (fst st). k \<noteq> [] \<and> vs \<noteq> [] \<Longrightarrow>
   \<forall>(k, vs) \<in> set (fst (foldl (group_step m) st xs)). k \<noteq> [] \<and> vs \<noteq> []"
proof (induction xs arbitrary: st)
  case Nil
  then show ?case by simp
next
  case (Cons x xs)
  have "\<forall>(k, vs) \<in> set (fst (group_step m st x)). k \<noteq> [] \<and> vs \<noteq> []"
  proof (cases "truthy (m x)")
    case True
    then obtain s where "m x = Some s" "s \<noteq> []" by (auto simp: truthy_def split: option.splits)
    with True setdefault_append_wf [OF Cons.prems, of s x] show ?thesis
      by (simp add: group_step_def)
  next
    case False
    with Cons.prems show ?thesis by (simp add: group_step_def)
  qed
  from Cons.IH [OF this] show ?case by simp
qed

lemma group_wf:
  "\<forall>(sw, ns) \<in> set (group_nodes_by_switch allocated m). sw \<noteq> [] \<and> ns \<noteq> []"
  using group_foldl_wf [of "([], [])" m allocated]
  by (simp add: group_nodes_by_switch_def group_nodes_loop_def)

lemma nodes_of_member:
  "distinct (map fst d) \<Longrightarrow> (k, vs) \<in> set d \<Longrightarrow> nodes_of d k = vs"
  by (simp add: nodes_of_def)

text \<open>
  C6 (as amended).  The grouper keeps duplicates: a node that the topology maps to a
  (non-empty) switch name occurs in the group of that switch exactly as often as it occurs
  in the allocated sequence, and in no other group.
\<close>

theorem grouper_keeps_duplicates:
  assumes "node_to_switch n = Some s" and "s \<noteq> []"
  shows "count_list (nodes_of (group_nodes_by_switch allocated node_to_switch) s) n = count_list allocated n
       \<and> (\<forall>(s', ns) \<in> set (group_nodes_by_switch allocated node_to_switch). s' \<noteq> s \<longrightarrow> n \<notin> set ns)"
proof
  have "count_list (filter (\<lambda>n. node_to_switch n = Some s \<and> s \<noteq> []) xs) n = count_list xs n" for xs
    using assms by (induction xs) (auto simp: truthy_def)
  then show "count_list (nodes_of (group_nodes_by_switch allocated node_to_switch) s) n = count_list allocated n"
    by (simp add: nodes_of_group)
next
  show "\<forall>(s', ns) \<in> set (group_nodes_by_switch allocated node_to_switch). s' \<noteq> s \<longrightarrow> n \<notin> set ns"
  proof (clarify)
    fix s' ns
    assume mem: "(s', ns) \<in> set (group_nodes_by_switch allocated node_to_switch)" and ne: "s' \<noteq> s" and "n \<in> set ns"
    from nodes_of_member [OF distinct_group mem]
    have "ns = filter (\<lambda>n. node_to_switch n = Some s' \<and> s' \<noteq> []) allocated"
      by (simp add: nodes_of_group)
    with \<open>n \<in> set ns\<close> assms ne show False by auto
  qed
qed

theorem grouper_keeps_duplicates_witness:
  "[''n'' \<mapsto> ''s''] ''n'' = Some ''s'' \<and> ''s'' \<noteq> [] \<and>
   count_list (nodes_of (group_nodes_by_switch [''n'', ''m'', ''n''] [''n'' \<mapsto> ''s'']) ''s'') ''n'' = 2"
proof -
  have h1: "[''n'' \<mapsto> ''s''] ''n'' = Some ''s''" by simp
  have h2: "''s'' \<noteq> []" by simp
  have c: "count_list [''n'', ''m'', ''n''] ''n'' = 2" by simp
  from grouper_keeps_duplicates [of "[''n'' \<mapsto> ''s'']" "''n''" "''s''" "[''n'', ''m'', ''n'']", OF h1 h2] h1 h2 c
  show ?thesis by simp
qed

text \<open>
  The claim as stated fails: the allocated sequence \<open>n n\<close> with \<open>n\<close> on switch \<open>s\<close> gives
  the group \<open>s: [n, n]\<close>, in which \<open>n\<close> occurs twice.
\<close>

theorem grouper_duplicates_counterexample:
  "group_nodes_by_switch [''n'', ''n''] [''n'' \<mapsto> ''s''] = [(''s'', [''n'', ''n''])]
   \<and> \<not> count_list (concat (map snd (group_nodes_by_switch [''n'', ''n''] [''n'' \<mapsto> ''s'']))) ''n'' \<le> 1"
  by (simp add: group_nodes_by_switch_def group_nodes_loop_def group_step_def truthy_def)

subsection \<open>Slices\<close>

lemma slice_to_nonneg: "0 \<le> j \<Longrightarrow> slice_to xs j = take (nat j) xs"
  by (auto simp: slice_to_def slice_bound_def Let_def min_def)

lemma slice_from_nonneg: "0 \<le> i \<Longrightarrow> slice_from xs i = drop (nat i) xs"
  by (auto simp: slice_from_def slice_bound_def Let_def min_def)

lemma slice_between_nonneg:
  "0 \<le> i \<Longrightarrow> 0 \<le> k \<Longrightarrow> slice_between xs i (i + k) = take (nat k) (drop (nat i) xs)"
  by (auto simp: slice_between_def slice_bound_def Let_def min_def nat_add_distrib)

lemma set_slice_to: "set (slice_to xs j) \<subseteq> set xs"
  by (simp add: slice_to_def set_take_subset)

lemma set_slice_from: "set (slice_from xs i) \<subseteq> set xs"
  by (simp add: slice_from_def set_drop_subset)

lemma set_slice_between: "set (slice_between xs i j) \<subseteq> set xs"
  unfolding slice_between_def
  by (meson set_take_subset set_drop_subset subset_trans)

lemma slice_to_from: "slice_to xs i @ slice_from xs i = xs"
  by (simp add: slice_to_def slice_from_def)

lemma slice_to_from_disjoint: "distinct xs \<Longrightarrow> set (slice_to xs i) \<inter> set (slice_from xs i) = {}"
  by (metis distinct_append slice_to_from)

subsection \<open>A single switch group\<close>

text \<open>
  C5 (as amended).  With exactly one switch group, whose nodes sort to \<open>n1..nk\<close>, and
  \<open>requested_a = m \<ge> 0\<close>, both strategies return the first \<open>m\<close> sorted nodes as A
  and all the remaining sorted nodes as B, whatever \<open>requested_b\<close> is: nothing bounds the
  total by \<open>requested_a + requested_b\<close>.
\<close>

theorem single_switch_split:
  assumes "0 \<le> m"
  shows "evenly_split_nodes_between_workloads iter rnd [(s, ns)] m b
           = Inr (take (nat m) (sort ns), drop (nat m) (sort ns))
       \<and> compact_split_nodes_between_workloads iter [(s, ns)] node_to_switch hierarchy m b
           = (take (nat m) (sort ns), drop (nat m) (sort ns))"
  using assms
  by (simp add: evenly_split_nodes_between_workloads_def compact_split_nodes_between_workloads_def
        handle_single_switch_case_def slice_to_nonneg slice_from_nonneg Let_def)

theorem single_switch_split_witness:
  "(0::int) \<le> 1
   \<and> evenly_split_nodes_between_workloads sorted_list_of_set round_half_even [(''s'', [''c'', ''a'', ''b''])] 1 1
       = Inr ([''a''], [''b'', ''c''])
   \<and> compact_split_nodes_between_workloads sorted_list_of_set [(''s'', [''c'', ''a'', ''b''])] Map.empty
          \<lparr>parents = None, children = None\<rparr> 1 1
       = ([''a''], [''b'', ''c''])"
proof -
  have h: "(0::int) \<le> 1" by simp
  have s: "sort [''c'', ''a'', ''b''] = [''a'', ''b'', ''c'']" by code_simp
  from single_switch_split [OF h, of sorted_list_of_set round_half_even "''s''" "[''c'', ''a'', ''b'']" 1 Map.empty
      "\<lparr>parents = None, children = None\<rparr>"] h
  show ?thesis by (simp add: s)
qed

text \<open>
  The claim as stated fails: three nodes on one switch with \<open>requested_a = requested_b = 1\<close>
  give B two nodes, three nodes in total.
\<close>

theorem single_switch_bound_counterexample:
  "compact_split_nodes_between_workloads sorted_list_of_set [(''s'', [''a'', ''b'', ''c''])] Map.empty
          \<lparr>parents = None, children = None\<rparr> 1 1 = ([''a''], [''b'', ''c''])
   \<and> evenly_split_nodes_between_workloads sorted_list_of_set round_half_even [(''s'', [''a'', ''b'', ''c''])] 1 1
       = Inr ([''a''], [''b'', ''c''])
   \<and> \<not> int (length [''a''] + length [''b'', ''c'']) \<le> 1 + 1"
  by code_simp

subsection \<open>Set iteration, rounding and group lookup\<close>

lemma valid_iter_sorted_list_of_set: "valid_iter sorted_list_of_set"
  by (simp add: valid_iter_def)

lemma div_less_of_mult_less:
  fixes a q n :: int
  assumes "0 < q" and "a < n * q"
  shows "a div q < n"
proof -
  have "q * (a div q) \<le> a"
  proof -
    have "q * (a div q) + a mod q = a" by simp
    moreover have "0 \<le> a mod q" using assms(1) by simp
    ultimately show ?thesis by linarith
  qed
  then have "q * (a div q) < q * n" using assms(2) by (simp add: mult.commute)
  then show ?thesis using assms(1) by (simp add: mult_less_cancel_left_pos)
qed

lemma valid_rnd_round_half_even: "valid_rnd round_half_even"
  unfolding valid_rnd_def
proof (intro allI impI)
  fix n p q :: int
  assume h: "0 \<le> n \<and> 0 < p \<and> p < q"
  then have q: "0 < q" and np: "0 \<le> n * p" by auto
  have f0: "0 \<le> (n * p) div q" using q np by (simp add: pos_imp_zdiv_nonneg_iff)
  show "0 \<le> round_half_even n p q \<and> round_half_even n p q \<le> n"
  proof (cases "n = 0")
    case True
    then show ?thesis using q by (simp add: round_half_even_def)
  next
    case False
    with h have "n * p < n * q" by simp
    then have "(n * p) div q < n"
      using q by (rule_tac div_less_of_mult_less) auto
    then show ?thesis using f0 q
      by (auto simp: round_half_even_def Let_def)
  qed
qed

lemma sort_iter: "valid_iter iter \<Longrightarrow> finite S \<Longrightarrow> sort (iter S) = sorted_list_of_set S"
  by (metis remdups_id_iff_distinct sorted_list_of_set_sort_remdups valid_iter_def)

lemma set_nodes_of: "set (nodes_of stn sw) \<subseteq> set (concat (map snd stn))"
proof (cases "map_of stn sw")
  case None
  then show ?thesis by (simp add: nodes_of_def)
next
  case (Some ns)
  then have "(sw, ns) \<in> set stn" by (rule map_of_SomeD)
  then have "set ns \<subseteq> set (concat (map snd stn))" by force
  then show ?thesis by (simp add: nodes_of_def Some)
qed

lemma nodes_of_disjoint:
  "distinct (concat (map snd stn)) \<Longrightarrow> distinct (map fst stn) \<Longrightarrow> sw1 \<noteq> sw2 \<Longrightarrow>
   set (nodes_of stn sw1) \<inter> set (nodes_of stn sw2) = {}"
proof (induction stn)
  case Nil
  then show ?case by (simp add: nodes_of_def)
next
  case (Cons p stn)
  obtain k ns where p: "p = (k, ns)" by (cases p)
  have sub: "set (nodes_of stn sw) \<subseteq> set (concat (map snd stn))" for sw
    by (rule set_nodes_of)
  have eq: "nodes_of (p # stn) sw = (if sw = k then ns else nodes_of stn sw)" for sw
    by (simp add: nodes_of_def p)
  from Cons.prems have d: "set ns \<inter> set (concat (map snd stn)) = {}" by (simp add: p)
  from Cons have ih: "set (nodes_of stn sw1) \<inter> set (nodes_of stn sw2) = {}" by simp
  show ?case
    using d ih sub [of sw1] sub [of sw2] \<open>sw1 \<noteq> sw2\<close> by (auto simp: eq)
qed

lemma distinct_nodes_of:
  "distinct (concat (map snd stn)) \<Longrightarrow> distinct (nodes_of stn sw)"
  by (induction stn) (auto simp: nodes_of_def split: option.splits)

subsection \<open>The loop of the even strategy\<close>

lemma even_loop_Cons_Inr:
  assumes "even_loop rnd stn wa wb (sw # rest) (A, B, al, ta, tb) = Inr st'"
  obtains (break) "wa \<le> ta" "wb \<le> tb" "st' = (A, B, al, ta, tb)"
  | (step) a b where "\<not> (wa \<le> ta \<and> wb \<le> tb)"
      "even_counts rnd wa wb (int (length (nodes_of stn sw))) (max 0 (wa - ta)) (max 0 (wb - tb)) = Inr (a, b)"
      "even_loop rnd stn wa wb rest
         (A @ slice_to (sort (nodes_of stn sw)) a,
          B @ slice_between (sort (nodes_of stn sw)) a (a + b),
          al \<union> set (slice_to (sort (nodes_of stn sw)) (a + b)),
          ta + a, tb + b) = Inr st'"
  using assms by (auto simp: Let_def split: if_splits sum.splits prod.splits)


lemma set_sorted_nodes_of: "set (sort (nodes_of stn sw)) \<subseteq> set (concat (map snd stn))"
  using set_nodes_of [of stn sw] by simp

lemma even_loop_subset:
  "even_loop rnd stn wa wb sws (A, B, al, ta, tb) = Inr (A', B', al', ta', tb') \<Longrightarrow>
   set A' \<subseteq> set A \<union> set (concat (map snd stn)) \<and> set B' \<subseteq> set B \<union> set (concat (map snd stn))"
proof (induction sws arbitrary: A B al ta tb)
  case Nil
  then show ?case by auto
next
  case (Cons sw rest)
  from Cons.prems show ?case
  proof (cases rule: even_loop_Cons_Inr)
    case break
    then show ?thesis by auto
  next
    case (step a b)
    let ?ns = "sort (nodes_of stn sw)"
    have 1: "set (slice_to ?ns a) \<subseteq> set (concat (map snd stn))"
      using set_slice_to [of ?ns a] set_sorted_nodes_of [of stn sw] by blast
    have 2: "set (slice_between ?ns a (a + b)) \<subseteq> set (concat (map snd stn))"
      using set_slice_between [of ?ns a "a + b"] set_sorted_nodes_of [of stn sw] by blast
    from Cons.IH [OF step(3)] 1 2 show ?thesis by auto
  qed
qed

lemma even_counts_bounds:
  assumes "valid_rnd rnd" "0 \<le> wa" "0 \<le> wb" "0 \<le> n" "0 \<le> la" "0 \<le> lb"
    and "even_counts rnd wa wb n la lb = Inr (a, b)"
  shows "0 \<le> a \<and> 0 \<le> b"
proof -
  have r: "0 < p \<Longrightarrow> p < q \<Longrightarrow> 0 \<le> rnd n p q \<and> rnd n p q \<le> n" for p q
    using assms(1,4) by (simp add: valid_rnd_def)
  show ?thesis
  proof (cases "n \<le> la + lb")
    case True
    show ?thesis
    proof (cases "la = 0 \<or> lb = 0")
      case True
      with \<open>n \<le> la + lb\<close> assms show ?thesis by (auto simp: even_counts_def split: if_splits)
    next
      case False
      with assms have "0 < la" "la < la + lb" by auto
      from r [OF this] False True assms show ?thesis
        by (auto simp: even_counts_def Let_def split: if_splits)
    qed
  next
    case False
    note big = this
    show ?thesis
    proof (cases "wa = 0 \<or> wb = 0")
      case True
      with big assms show ?thesis by (auto simp: even_counts_def split: if_splits)
    next
      case False
      with assms have "0 < wa" "wa < wa + wb" by auto
      from r [OF this] False big assms show ?thesis
        by (auto simp: even_counts_def Let_def split: if_splits)
    qed
  qed
qed


lemma take_add_sets:
  "set (take (a + b) xs) = set (take a xs) \<union> set (take b (drop a xs))"
  by (simp add: take_add)

lemma even_loop_disjoint:
  assumes rnd: "valid_rnd rnd" and wa: "0 \<le> wa" and wb: "0 \<le> wb"
    and dn: "distinct (concat (map snd stn))" and dk: "distinct (map fst stn)"
  shows "distinct sws \<Longrightarrow> set A \<inter> set B = {} \<Longrightarrow> set A \<union> set B \<subseteq> al \<Longrightarrow>
         (\<forall>sw \<in> set sws. al \<inter> set (nodes_of stn sw) = {}) \<Longrightarrow>
         even_loop rnd stn wa wb sws (A, B, al, ta, tb) = Inr (A', B', al', ta', tb') \<Longrightarrow>
         set A' \<inter> set B' = {} \<and> set A' \<union> set B' \<subseteq> al'"
proof (induction sws arbitrary: A B al ta tb)
  case Nil
  then show ?case by auto
next
  case (Cons sw rest)
  from Cons.prems(5) show ?case
  proof (cases rule: even_loop_Cons_Inr)
    case break
    with Cons.prems show ?thesis by auto
  next
    case (step a b)
    let ?ns = "sort (nodes_of stn sw)"
    have ab: "0 \<le> a \<and> 0 \<le> b"
      by (rule even_counts_bounds [OF rnd wa wb _ _ _ step(2)]) auto
    have dns: "distinct ?ns" using distinct_nodes_of [OF dn] by simp
    have sa: "slice_to ?ns a = take (nat a) ?ns" using ab by (simp add: slice_to_nonneg)
    have sb: "slice_between ?ns a (a + b) = take (nat b) (drop (nat a) ?ns)"
      using ab by (simp add: slice_between_nonneg)
    have sab: "set (slice_to ?ns (a + b)) = set (take (nat a) ?ns) \<union> set (take (nat b) (drop (nat a) ?ns))"
      using ab by (simp add: slice_to_nonneg nat_add_distrib take_add)
    have new_disj: "set (take (nat a) ?ns) \<inter> set (take (nat b) (drop (nat a) ?ns)) = {}"
    proof -
      have "distinct (take (nat a) ?ns @ drop (nat a) ?ns)" using dns by simp
      then have "set (take (nat a) ?ns) \<inter> set (drop (nat a) ?ns) = {}"
        by (simp only: distinct_append)
      moreover have "set (take (nat b) (drop (nat a) ?ns)) \<subseteq> set (drop (nat a) ?ns)"
        by (rule set_take_subset)
      ultimately show ?thesis by blast
    qed
    have sub1: "set (take (nat a) ?ns) \<subseteq> set (nodes_of stn sw)"
      using set_take_subset [of "nat a" ?ns] by simp
    have sub2: "set (take (nat b) (drop (nat a) ?ns)) \<subseteq> set (nodes_of stn sw)"
      using set_take_subset [of "nat b" "drop (nat a) ?ns"] set_drop_subset [of "nat a" ?ns] by auto
    have old: "al \<inter> set (nodes_of stn sw) = {}" using Cons.prems(4) by simp
    have rest_disj: "\<forall>sw' \<in> set rest. set (nodes_of stn sw) \<inter> set (nodes_of stn sw') = {}"
    proof
      fix sw' assume "sw' \<in> set rest"
      with Cons.prems(1) have "sw \<noteq> sw'" by auto
      then show "set (nodes_of stn sw) \<inter> set (nodes_of stn sw') = {}"
        by (rule nodes_of_disjoint [OF dn dk])
    qed
    show ?thesis
    proof (rule Cons.IH [OF _ _ _ _ step(3)])
      show "distinct rest" using Cons.prems(1) by simp
      show "set (A @ slice_to ?ns a) \<inter> set (B @ slice_between ?ns a (a + b)) = {}"
        unfolding sa sb set_append using Cons.prems(2,3) old new_disj sub1 sub2 by blast
      show "set (A @ slice_to ?ns a) \<union> set (B @ slice_between ?ns a (a + b))
              \<subseteq> al \<union> set (slice_to ?ns (a + b))"
        unfolding sa sb sab set_append using Cons.prems(3) by blast
      show "\<forall>sw' \<in> set rest. (al \<union> set (slice_to ?ns (a + b))) \<inter> set (nodes_of stn sw') = {}"
        unfolding sab using Cons.prems(4) rest_disj sub1 sub2 by (simp del: set_sort) blast
    qed
  qed
qed

subsection \<open>The compact strategy\<close>

lemma compact_fill_append:
  "\<exists>ys. fst (compact_fill stn sws (A, k)) = A @ ys
        \<and> set ys \<subseteq> (\<Union>sw \<in> set sws. set (nodes_of stn sw))"
proof (induction sws arbitrary: A k)
  case Nil
  then show ?case by simp
next
  case (Cons sw rest)
  let ?ns = "sort (nodes_of stn sw)"
  show ?case
  proof (cases "int (length ?ns) \<le> k")
    case True
    note le = this
    show ?thesis
    proof (cases "k - int (length ?ns) \<le> 0")
      case True
      with le have "fst (compact_fill stn (sw # rest) (A, k)) = A @ ?ns"
        by (simp add: Let_def)
      then show ?thesis by auto
    next
      case False
      with le have eq: "compact_fill stn (sw # rest) (A, k)
          = compact_fill stn rest (A @ ?ns, k - int (length ?ns))"
        by (simp add: Let_def)
      from Cons.IH [of "A @ ?ns" "k - int (length ?ns)"]
      obtain ys where "fst (compact_fill stn rest (A @ ?ns, k - int (length ?ns))) = (A @ ?ns) @ ys"
        and "set ys \<subseteq> (\<Union>sw \<in> set rest. set (nodes_of stn sw))" by blast
      then have "fst (compact_fill stn (sw # rest) (A, k)) = A @ (?ns @ ys)
          \<and> set (?ns @ ys) \<subseteq> (\<Union>sw \<in> set (sw # rest). set (nodes_of stn sw))"
        unfolding eq by auto
      then show ?thesis by blast
    qed
  next
    case False
    then have "fst (compact_fill stn (sw # rest) (A, k)) = A @ slice_to ?ns k"
      by (simp add: Let_def)
    moreover have "set (slice_to ?ns k) \<subseteq> set (nodes_of stn sw)"
      using set_slice_to [of ?ns k] by simp
    ultimately show ?thesis by auto
  qed
qed

lemma compact_fill_zero: "compact_fill stn sws (A, 0) = (A, 0)"
  by (cases sws) (auto simp: Let_def slice_to_def slice_bound_def)

lemma set_remaining_switches:
  "set (map fst (remaining_switches stn lg h)) = set (map fst stn) - {lg}"
proof -
  have "map fst (map (\<lambda>switch. (switch, calculate_switch_distance lg switch h)) xs) = xs" for xs
    by (induction xs) auto
  then have "fst ` (\<lambda>switch. (switch, calculate_switch_distance lg switch h)) ` set xs = set xs" for xs
    by (metis list.set_map)
  then show ?thesis
    by (simp add: remaining_switches_def set_filter [symmetric] del: set_filter) auto
qed

text \<open>The scan for the largest switch.\<close>

lemma largest_foldl:
  assumes "fst st = None \<longrightarrow> snd st = 0"
  shows "(case fst (foldl largest_step st xs) of
            None \<Rightarrow> fst st = None \<and> (\<forall>(k, ns) \<in> set xs. ns = [])
          | Some lg \<Rightarrow> fst st = Some lg \<and> (\<forall>(k, ns) \<in> set xs. length ns \<le> snd st)
                    \<or> (\<exists>ns. (lg, ns) \<in> set xs \<and> ns \<noteq> [] \<and> snd st < length ns
                         \<and> (\<forall>(k', ns') \<in> set xs. length ns' \<le> length ns)))"
  using assms
proof (induction xs arbitrary: st)
  case Nil
  then show ?case by (auto split: option.splits)
next
  case (Cons x xs)
  obtain k ns where x: "x = (k, ns)" by (cases x)
  obtain l m where st: "st = (l, m)" by (cases st)
  show ?case
  proof (cases "length ns > m")
    case True
    then have step: "largest_step st x = (Some k, length ns)"
      by (simp add: largest_step_def x st)
    have "fst (Some k, length ns) = None \<longrightarrow> snd (Some k, length ns) = 0" by simp
    from Cons.IH [OF this] True show ?thesis
      unfolding foldl_Cons step
      by (auto simp: x st split: option.splits) (force+)?
  next
    case False
    then have step: "largest_step st x = st"
      by (simp add: largest_step_def x st)
    from Cons.IH [OF Cons.prems] False Cons.prems show ?thesis
      unfolding foldl_Cons step
      by (auto simp: x st split: option.splits) (force+)?
  qed
qed


lemma find_largest_Some:
  assumes "find_largest_switch stn = Some lg"
  shows "\<exists>ns. (lg, ns) \<in> set stn \<and> ns \<noteq> [] \<and> (\<forall>(k', ns') \<in> set stn. length ns' \<le> length ns)"
  using largest_foldl [of "(None, 0)" stn] assms
  by (simp add: find_largest_switch_def)

lemma find_largest_None:
  assumes "find_largest_switch stn = None"
  shows "\<forall>(k, ns) \<in> set stn. ns = []"
  using largest_foldl [of "(None, 0)" stn] assms
  by (simp add: find_largest_switch_def)

lemma slice_from_one: "slice_from xs 1 = tl xs"
  by (cases xs) (auto simp: slice_from_def slice_bound_def Let_def drop_Suc)


text \<open>The shape of what the placement returns.\<close>

lemma compact_place_shape:
  assumes ne: "nodes_of stn lg \<noteq> []" and res: "compact_place iter stn h all lg wa wb = (A, B)"
  shows "\<exists>ys zs B0 rem us.
    A = hd (sort (nodes_of stn lg)) # ys @ zs
    \<and> B = B0 @ us
    \<and> B0 @ rem = tl (sort (nodes_of stn lg))
    \<and> set ys \<subseteq> (\<Union>sw \<in> set (map fst stn) - {lg}. set (nodes_of stn sw))
    \<and> set zs \<subseteq> set rem
    \<and> (valid_iter iter \<longrightarrow> set us \<subseteq> set all - set (A @ B0))"
proof -
  define sorted where "sorted = sort (nodes_of stn lg)"
  define fl where "fl = min wb (int (length (tl sorted)))"
  define B0 where "B0 = slice_to (tl sorted) fl"
  define rem where "rem = slice_from (tl sorted) fl"
  define filled where
    "filled = compact_fill stn (map fst (remaining_switches stn lg h)) ([hd sorted], wa - 1)"
  define zs where "zs = (if snd filled > 0 then slice_to rem (snd filled) else [])"
  define us where "us = (if wb - int (length B0) > 0
      then slice_to (sort (iter (set all - set ((fst filled @ zs) @ B0)))) (wb - int (length B0)) else [])"
  have cp: "compact_place iter stn h all lg wa wb = (fst filled @ zs, B0 @ us)"
    by (simp add: compact_place_def Let_def slice_from_one sorted_def fl_def B0_def rem_def
          filled_def zs_def us_def Un_assoc)
  with res have A: "A = fst filled @ zs" and B: "B = B0 @ us" by simp_all
  have "\<exists>ys. fst filled = [hd sorted] @ ys
      \<and> set ys \<subseteq> (\<Union>sw \<in> set (map fst (remaining_switches stn lg h)). set (nodes_of stn sw))"
    unfolding filled_def by (rule compact_fill_append)
  then obtain ys where ys: "fst filled = [hd sorted] @ ys"
    and ys_sub: "set ys \<subseteq> (\<Union>sw \<in> set (map fst (remaining_switches stn lg h)). set (nodes_of stn sw))"
    by (elim exE conjE)
  have 1: "A = hd (sort (nodes_of stn lg)) # ys @ zs"
    unfolding A ys sorted_def by simp
  have 3: "B0 @ rem = tl (sort (nodes_of stn lg))"
    unfolding B0_def rem_def sorted_def by (rule slice_to_from)
  have 4: "set ys \<subseteq> (\<Union>sw \<in> set (map fst stn) - {lg}. set (nodes_of stn sw))"
    using ys_sub unfolding set_remaining_switches .
  have 5: "set zs \<subseteq> set rem"
    using set_slice_to [of rem "snd filled"] by (auto simp: zs_def)
  have 6: "set us \<subseteq> set all - set (A @ B0)" if "valid_iter iter"
  proof (cases "wb - int (length B0) > 0")
    case False
    then show ?thesis by (simp add: us_def)
  next
    case True
    have "finite (set all - set (A @ B0))" by simp
    with that have "set (iter (set all - set (A @ B0))) = set all - set (A @ B0)"
      unfolding valid_iter_def by blast
    then have "set (sort (iter (set all - set (A @ B0)))) = set all - set (A @ B0)"
      by (simp only: set_sort)
    moreover have "us = slice_to (sort (iter (set all - set (A @ B0)))) (wb - int (length B0))"
      unfolding us_def A using True by simp
    ultimately show ?thesis
      using set_slice_to [of "sort (iter (set all - set (A @ B0)))" "wb - int (length B0)"]
      by simp
  qed
  from 1 B 3 4 5 6 show ?thesis by (intro exI conjI impI)
qed


lemma sorted_nodes_split:
  "nodes_of stn lg \<noteq> [] \<Longrightarrow>
   hd (sort (nodes_of stn lg)) # tl (sort (nodes_of stn lg)) = sort (nodes_of stn lg)"
  by (metis hd_Cons_tl length_0_conv length_sort)

lemma compact_place_head:
  assumes "nodes_of stn lg \<noteq> []" and "compact_place iter stn h all lg wa wb = (A, B)"
  shows "A \<noteq> [] \<and> hd A = hd (sort (nodes_of stn lg))"
  using compact_place_shape [OF assms] by (elim exE conjE) simp

lemma compact_place_subset:
  assumes ne: "nodes_of stn lg \<noteq> []" and res: "compact_place iter stn h all lg wa wb = (A, B)"
    and it: "valid_iter iter" and sub: "\<And>sw. set (nodes_of stn sw) \<subseteq> set all"
  shows "set A \<union> set B \<subseteq> set all"
proof -
  from compact_place_shape [OF ne res] obtain ys zs B0 rem us where
    A: "A = hd (sort (nodes_of stn lg)) # ys @ zs" and B: "B = B0 @ us"
    and B0: "B0 @ rem = tl (sort (nodes_of stn lg))"
    and ys: "set ys \<subseteq> (\<Union>sw \<in> set (map fst stn) - {lg}. set (nodes_of stn sw))"
    and zs: "set zs \<subseteq> set rem"
    and us': "valid_iter iter \<longrightarrow> set us \<subseteq> set all - set (A @ B0)"
    by (elim exE conjE)
  from us' it have us: "set us \<subseteq> set all - set (A @ B0)" by (rule mp)
  have "set (hd (sort (nodes_of stn lg)) # B0 @ rem) = set (nodes_of stn lg)"
    unfolding B0 sorted_nodes_split [OF ne] by simp
  with sub [of lg] have "hd (sort (nodes_of stn lg)) \<in> set all" "set B0 \<subseteq> set all" "set rem \<subseteq> set all"
    by auto
  moreover have "set ys \<subseteq> set all" using ys sub by blast
  moreover have "set us \<subseteq> set all" using us by blast
  ultimately show ?thesis using zs unfolding A B by auto
qed

lemma compact_place_disjoint:
  assumes ne: "nodes_of stn lg \<noteq> []" and res: "compact_place iter stn h all lg wa wb = (A, B)"
    and it: "valid_iter iter"
    and dn: "distinct (concat (map snd stn))" and dk: "distinct (map fst stn)"
  shows "set A \<inter> set B = {}"
proof -
  from compact_place_shape [OF ne res] obtain ys zs B0 rem us where
    A: "A = hd (sort (nodes_of stn lg)) # ys @ zs" and B: "B = B0 @ us"
    and B0: "B0 @ rem = tl (sort (nodes_of stn lg))"
    and ys: "set ys \<subseteq> (\<Union>sw \<in> set (map fst stn) - {lg}. set (nodes_of stn sw))"
    and zs: "set zs \<subseteq> set rem"
    and us': "valid_iter iter \<longrightarrow> set us \<subseteq> set all - set (A @ B0)"
    by (elim exE conjE)
  from us' it have us: "set us \<subseteq> set all - set (A @ B0)" by (rule mp)
  have "distinct (sort (nodes_of stn lg))" using distinct_nodes_of [OF dn, of lg] by simp
  then have d: "distinct (hd (sort (nodes_of stn lg)) # B0 @ rem)"
    unfolding B0 sorted_nodes_split [OF ne] .
  have all: "set (hd (sort (nodes_of stn lg)) # B0 @ rem) = set (nodes_of stn lg)"
    unfolding B0 sorted_nodes_split [OF ne] by simp
  have "set ys \<inter> set (nodes_of stn lg) = {}"
  proof -
    have "set (nodes_of stn sw) \<inter> set (nodes_of stn lg) = {}" if "sw \<in> set (map fst stn) - {lg}" for sw
    proof -
      from that have "sw \<noteq> lg" by simp
      then show ?thesis by (rule nodes_of_disjoint [OF dn dk])
    qed
    with ys show ?thesis by blast
  qed
  with all have 1: "set ys \<inter> set B0 = {}" by auto
  from d zs have 2: "hd (sort (nodes_of stn lg)) \<notin> set B0" "set zs \<inter> set B0 = {}" by auto
  from us have 3: "set A \<inter> set us = {}" by auto
  have "set A \<inter> set B0 = {}" using 1 2 unfolding A by auto
  with 3 show ?thesis unfolding B by auto
qed

lemma compact_place_b:
  assumes ne: "nodes_of stn lg \<noteq> []"
    and "1 \<le> wa" "0 \<le> wb" "wa + wb \<le> int (length (nodes_of stn lg))"
  shows "snd (compact_place iter stn h all lg wa wb) = take (nat wb) (tl (sort (nodes_of stn lg)))"
proof -
  let ?rem0 = "tl (sort (nodes_of stn lg))"
  have len: "int (length ?rem0) = int (length (nodes_of stn lg)) - 1"
    using ne by (simp add: of_nat_diff Suc_leI)
  with assms have fl: "min wb (int (length ?rem0)) = wb" by linarith
  have B0: "slice_to ?rem0 wb = take (nat wb) ?rem0"
    using assms(3) by (rule slice_to_nonneg)
  have "int (length (take (nat wb) ?rem0)) = wb" using assms len by simp
  then have "\<not> wb - int (length (take (nat wb) ?rem0)) > 0" by simp
  then show ?thesis
    unfolding compact_place_def Let_def slice_from_one fl B0 by (simp only: if_False snd_conv)
qed

lemma compact_place_a_one:
  "fst (compact_place iter stn h all lg 1 wb) = [hd (sort (nodes_of stn lg))]"
  by (simp add: compact_place_def Let_def compact_fill_zero)

subsection \<open>Both strategies: where the nodes come from, and disjointness\<close>

lemma single_switch_subset:
  assumes "handle_single_switch_case stn wa = (A, B)"
  shows "set A \<union> set B \<subseteq> set (concat (map snd stn))"
proof -
  let ?all = "concat (map (\<lambda>(switch, nodes). sort nodes) stn)"
  have "set ?all = set (concat (map snd stn))" by (induction stn) auto
  moreover from assms have "A = slice_to ?all wa" "B = slice_from ?all wa"
    by (simp_all add: handle_single_switch_case_def Let_def)
  ultimately show ?thesis
    using set_slice_to [of ?all wa] set_slice_from [of ?all wa] by auto
qed

lemma single_switch_disjoint:
  assumes "handle_single_switch_case stn wa = (A, B)" and "distinct (concat (map snd stn))"
    and "length stn = 1"
  shows "set A \<inter> set B = {}"
proof -
  from assms(3) obtain s ns where stn: "stn = [(s, ns)]"
    by (cases stn) (auto simp: length_Suc_conv)
  with assms(2) have "distinct (sort ns)" by simp
  moreover from assms(1) have "A = slice_to (sort ns) wa" "B = slice_from (sort ns) wa"
    by (simp_all add: handle_single_switch_case_def Let_def stn)
  ultimately show ?thesis by (simp add: slice_to_from_disjoint)
qed

lemma even_split_cases:
  assumes "evenly_split_nodes_between_workloads iter rnd stn wa wb = Inr (A, B)"
  obtains (single) "length stn = 1" "handle_single_switch_case stn wa = (A, B)"
  | (multi) B0 al ta tb where "length stn \<noteq> 1"
      "even_loop rnd stn wa wb (sort (map fst stn)) ([], [], {}, 0, 0) = Inr (A, B0, al, ta, tb)"
      "B = B0 @ sort (iter (set (concat (map (\<lambda>switch. sort (nodes_of stn switch)) (sort (map fst stn)))) - al))"
  using assms
  by (auto simp: evenly_split_nodes_between_workloads_def Let_def
        split: if_splits sum.splits prod.splits)


lemma set_all_sorted_nodes:
  "set (concat (map (\<lambda>switch. sort (nodes_of stn switch)) sws)) \<subseteq> set (concat (map snd stn))"
  using set_nodes_of [of stn] by auto

lemma even_split_subset:
  assumes res: "evenly_split_nodes_between_workloads iter rnd stn wa wb = Inr (A, B)"
    and it: "valid_iter iter"
  shows "set A \<union> set B \<subseteq> set (concat (map snd stn))"
  using res
proof (cases rule: even_split_cases)
  case single
  then show ?thesis by (simp only: single_switch_subset)
next
  case (multi B0 al ta tb)
  let ?all = "concat (map (\<lambda>switch. sort (nodes_of stn switch)) (sort (map fst stn)))"
  have "finite (set ?all - al)" by simp
  with it have "set (iter (set ?all - al)) = set ?all - al"
    unfolding valid_iter_def by blast
  then have "set (sort (iter (set ?all - al))) \<subseteq> set ?all" by (simp only: set_sort) blast
  with set_all_sorted_nodes [of stn "sort (map fst stn)"]
  have "set (sort (iter (set ?all - al))) \<subseteq> set (concat (map snd stn))" by blast
  with even_loop_subset [OF multi(2)] show ?thesis
    unfolding multi(3) set_append by auto
qed

lemma even_split_disjoint:
  assumes res: "evenly_split_nodes_between_workloads iter rnd stn wa wb = Inr (A, B)"
    and it: "valid_iter iter" and rnd: "valid_rnd rnd"
    and dk: "distinct (map fst stn)" and dn: "distinct (concat (map snd stn))"
    and wa: "0 \<le> wa" and wb: "0 \<le> wb"
  shows "set A \<inter> set B = {}"
  using res
proof (cases rule: even_split_cases)
  case single
  then show ?thesis using dn by (simp only: single_switch_disjoint)
next
  case (multi B0 al ta tb)
  let ?all = "concat (map (\<lambda>switch. sort (nodes_of stn switch)) (sort (map fst stn)))"
  have "set A \<inter> set B0 = {} \<and> set A \<union> set B0 \<subseteq> al"
    by (rule even_loop_disjoint [OF rnd wa wb dn dk _ _ _ _ multi(2)]) (use dk in auto)
  moreover have "set (sort (iter (set ?all - al))) = set ?all - al"
  proof -
    have "finite (set ?all - al)" by simp
    with it have "set (iter (set ?all - al)) = set ?all - al"
      unfolding valid_iter_def by blast
    then show ?thesis by (simp only: set_sort)
  qed
  ultimately show ?thesis unfolding multi(3) set_append by blast
qed

lemma compact_split_cases:
  assumes "compact_split_nodes_between_workloads iter stn n2s h wa wb = (A, B)"
  obtains (single) "length stn = 1" "handle_single_switch_case stn wa = (A, B)"
  | (empty) "length stn \<noteq> 1" "A = []" "B = []"
  | (place) lg where "length stn \<noteq> 1" "find_largest_switch stn = Some lg" "lg \<noteq> []"
      "nodes_of stn lg \<noteq> []"
      "compact_place iter stn h (concat (map snd stn)) lg wa wb = (A, B)"
  using assms
  by (auto simp: compact_split_nodes_between_workloads_def Let_def truthy_def
        split: if_splits option.splits)

lemma compact_split_subset:
  assumes res: "compact_split_nodes_between_workloads iter stn n2s h wa wb = (A, B)"
    and it: "valid_iter iter"
  shows "set A \<union> set B \<subseteq> set (concat (map snd stn))"
  using res
proof (cases rule: compact_split_cases)
  case single
  then show ?thesis by (simp only: single_switch_subset)
next
  case empty
  then show ?thesis by simp
next
  case (place lg)
  show ?thesis
    by (rule compact_place_subset [OF place(4,5) it]) (rule set_nodes_of)
qed

lemma compact_split_disjoint:
  assumes res: "compact_split_nodes_between_workloads iter stn n2s h wa wb = (A, B)"
    and it: "valid_iter iter"
    and dk: "distinct (map fst stn)" and dn: "distinct (concat (map snd stn))"
  shows "set A \<inter> set B = {}"
  using res
proof (cases rule: compact_split_cases)
  case single
  then show ?thesis using dn by (simp only: single_switch_disjoint)
next
  case empty
  then show ?thesis by simp
next
  case (place lg)
  show ?thesis
    by (rule compact_place_disjoint [OF place(4,5) it dn dk])
qed

text \<open>
  C1 (as amended).  For every switch grouping in which no node occurs twice (neither within
  a group nor in two groups), whenever a strategy returns lists A and B of the requested
  lengths, A and B are disjoint and all their elements are nodes of the grouping.
\<close>

theorem split_disjoint_within_input:
  assumes "valid_iter iter" and "valid_rnd rnd"
    and "distinct (map fst stn)" and "distinct (concat (map snd stn))"
  shows "(evenly_split_nodes_between_workloads iter rnd stn wa wb = Inr (A, B)
            \<and> int (length A) = wa \<and> int (length B) = wb
          \<longrightarrow> set A \<inter> set B = {} \<and> set A \<union> set B \<subseteq> set (concat (map snd stn)))
       \<and> (compact_split_nodes_between_workloads iter stn node_to_switch hierarchy wa wb = (A', B')
            \<and> int (length A') = wa \<and> int (length B') = wb
          \<longrightarrow> set A' \<inter> set B' = {} \<and> set A' \<union> set B' \<subseteq> set (concat (map snd stn)))"
proof (intro conjI impI; elim conjE)
  assume res: "evenly_split_nodes_between_workloads iter rnd stn wa wb = Inr (A, B)"
    and len: "int (length A) = wa" "int (length B) = wb"
  from len have "0 \<le> wa" "0 \<le> wb" by auto
  then show "set A \<inter> set B = {}"
    by (rule even_split_disjoint [OF res assms])
  show "set A \<union> set B \<subseteq> set (concat (map snd stn))"
    by (rule even_split_subset [OF res assms(1)])
next
  assume res: "compact_split_nodes_between_workloads iter stn node_to_switch hierarchy wa wb = (A', B')"
  show "set A' \<inter> set B' = {}"
    by (rule compact_split_disjoint [OF res assms(1,3,4)])
  show "set A' \<union> set B' \<subseteq> set (concat (map snd stn))"
    by (rule compact_split_subset [OF res assms(1)])
qed

theorem split_disjoint_within_input_witness:
  "valid_iter sorted_list_of_set \<and> valid_rnd round_half_even
   \<and> distinct (map fst [(''s1'', [''c'', ''a'', ''b'']), (''s2'', [''e'', ''d''])])
   \<and> distinct (concat (map snd [(''s1'', [''c'', ''a'', ''b'']), (''s2'', [''e'', ''d''])]))
   \<and> evenly_split_nodes_between_workloads sorted_list_of_set round_half_even
         [(''s1'', [''c'', ''a'', ''b'']), (''s2'', [''e'', ''d''])] 2 3
       = Inr ([''a'', ''d''], [''b'', ''c'', ''e''])
   \<and> compact_split_nodes_between_workloads sorted_list_of_set
         [(''s1'', [''c'', ''a'', ''b'']), (''s2'', [''e'', ''d''])] Map.empty
         \<lparr>parents = None, children = None\<rparr> 2 3
       = ([''a'', ''d''], [''b'', ''c'', ''e''])
   \<and> set [''a'', ''d''] \<inter> set [''b'', ''c'', ''e''] = {}
   \<and> set [''a'', ''d''] \<union> set [''b'', ''c'', ''e'']
       \<subseteq> set (concat (map snd [(''s1'', [''c'', ''a'', ''b'']), (''s2'', [''e'', ''d''])]))"
proof -
  let ?g = "[(''s1'', [''c'', ''a'', ''b'']), (''s2'', [''e'', ''d''])]"
  have h1: "valid_iter sorted_list_of_set" by (rule valid_iter_sorted_list_of_set)
  have h2: "valid_rnd round_half_even" by (rule valid_rnd_round_half_even)
  have h3: "distinct (map fst ?g)" by simp
  have h4: "distinct (concat (map snd ?g))" by simp
  have e: "evenly_split_nodes_between_workloads sorted_list_of_set round_half_even ?g 2 3
       = Inr ([''a'', ''d''], [''b'', ''c'', ''e''])" by code_simp
  have c: "compact_split_nodes_between_workloads sorted_list_of_set ?g Map.empty
         \<lparr>parents = None, children = None\<rparr> 2 3 = ([''a'', ''d''], [''b'', ''c'', ''e''])"
    by code_simp
  have la: "int (length [''a'', ''d'']) = 2" and lb: "int (length [''b'', ''c'', ''e'']) = 3"
    by simp_all
  from split_disjoint_within_input [OF h1 h2 h3 h4, of 2 3 "[''a'', ''d'']" "[''b'', ''c'', ''e'']"
      Map.empty "\<lparr>parents = None, children = None\<rparr>" "[''a'', ''d'']" "[''b'', ''c'', ''e'']"]
  have both: "(evenly_split_nodes_between_workloads sorted_list_of_set round_half_even ?g 2 3
          = Inr ([''a'', ''d''], [''b'', ''c'', ''e''])
        \<and> int (length [''a'', ''d'']) = 2 \<and> int (length [''b'', ''c'', ''e'']) = 3
        \<longrightarrow> set [''a'', ''d''] \<inter> set [''b'', ''c'', ''e''] = {}
          \<and> set [''a'', ''d''] \<union> set [''b'', ''c'', ''e''] \<subseteq> set (concat (map snd ?g)))
      \<and> (compact_split_nodes_between_workloads sorted_list_of_set ?g Map.empty
            \<lparr>parents = None, children = None\<rparr> 2 3 = ([''a'', ''d''], [''b'', ''c'', ''e''])
        \<and> int (length [''a'', ''d'']) = 2 \<and> int (length [''b'', ''c'', ''e'']) = 3
        \<longrightarrow> set [''a'', ''d''] \<inter> set [''b'', ''c'', ''e''] = {}
          \<and> set [''a'', ''d''] \<union> set [''b'', ''c'', ''e''] \<subseteq> set (concat (map snd ?g)))" .
  from both e la lb
  have "set [''a'', ''d''] \<inter> set [''b'', ''c'', ''e''] = {}
      \<and> set [''a'', ''d''] \<union> set [''b'', ''c'', ''e''] \<subseteq> set (concat (map snd ?g))"
    by blast
  moreover from both c la lb
  have "set [''a'', ''d''] \<inter> set [''b'', ''c'', ''e''] = {}
      \<and> set [''a'', ''d''] \<union> set [''b'', ''c'', ''e''] \<subseteq> set (concat (map snd ?g))"
    by blast
  ultimately show ?thesis using h1 h2 h3 h4 e c by blast
qed

text \<open>
  The claim as stated fails: a node allocated twice, \<open>s: [n, n]\<close>, with
  \<open>requested_a = requested_b = 1\<close> passes the quota check with \<open>n\<close> in both lists.
\<close>

theorem split_disjoint_counterexample:
  "evenly_split_nodes_between_workloads sorted_list_of_set round_half_even [(''s'', [''n'', ''n''])] 1 1
     = Inr ([''n''], [''n''])
   \<and> compact_split_nodes_between_workloads sorted_list_of_set [(''s'', [''n'', ''n''])]
        [''n'' \<mapsto> ''s''] \<lparr>parents = None, children = None\<rparr> 1 1
     = ([''n''], [''n''])
   \<and> group_nodes_by_switch [''n'', ''n''] [''n'' \<mapsto> ''s''] = [(''s'', [''n'', ''n''])]
   \<and> int (length [''n'']) = 1
   \<and> set [''n''] \<inter> set [''n''] \<noteq> {}"
proof -
  have 1: "evenly_split_nodes_between_workloads sorted_list_of_set round_half_even [(''s'', [''n'', ''n''])] 1 1
     = Inr ([''n''], [''n''])" by code_simp
  have 2: "compact_split_nodes_between_workloads sorted_list_of_set [(''s'', [''n'', ''n''])]
        [''n'' \<mapsto> ''s''] \<lparr>parents = None, children = None\<rparr> 1 1 = ([''n''], [''n''])"
    by (simp add: compact_split_nodes_between_workloads_def handle_single_switch_case_def
          slice_to_nonneg slice_from_nonneg Let_def)
  have 3: "group_nodes_by_switch [''n'', ''n''] [''n'' \<mapsto> ''s''] = [(''s'', [''n'', ''n''])]"
    by (simp add: group_nodes_by_switch_def group_nodes_loop_def group_step_def truthy_def)
  from 1 2 3 show ?thesis by simp
qed

subsection \<open>Nodes unknown to the topology; determinism\<close>

lemma group_nodes_known:
  assumes "n \<in> set (concat (map snd (group_nodes_by_switch allocated m)))"
  shows "\<exists>s. m n = Some s \<and> s \<noteq> [] \<and> n \<in> set allocated"
proof -
  from assms obtain s ns where mem: "(s, ns) \<in> set (group_nodes_by_switch allocated m)" and n: "n \<in> set ns"
    by auto
  from nodes_of_member [OF distinct_group mem]
  have "ns = filter (\<lambda>n. m n = Some s \<and> s \<noteq> []) allocated"
    by (simp add: nodes_of_group)
  with n show ?thesis by auto
qed

text \<open>
  C7 (as amended).  An allocated node that is absent from the topology's node-to-switch map
  is left out of the switch groups, and appears in neither workload A nor workload B under
  either strategy: the unallocated-remainder steps range over the grouped nodes only.
\<close>

theorem missing_node_never_placed:
  assumes "node_to_switch x = None" and "valid_iter iter"
  shows "(evenly_split_nodes_between_workloads iter rnd
            (group_nodes_by_switch allocated node_to_switch) wa wb = Inr (A, B)
          \<longrightarrow> x \<notin> set A \<and> x \<notin> set B)
       \<and> (compact_split_nodes_between_workloads iter
            (group_nodes_by_switch allocated node_to_switch) node_to_switch hierarchy wa wb = (A', B')
          \<longrightarrow> x \<notin> set A' \<and> x \<notin> set B')"
proof -
  have x: "x \<notin> set (concat (map snd (group_nodes_by_switch allocated node_to_switch)))"
    using group_nodes_known [of x allocated node_to_switch] assms(1) by auto
  show ?thesis
  proof (intro conjI impI)
    assume "evenly_split_nodes_between_workloads iter rnd
            (group_nodes_by_switch allocated node_to_switch) wa wb = Inr (A, B)"
    from even_split_subset [OF this assms(2)] x show "x \<notin> set A" "x \<notin> set B" by blast+
  next
    assume "compact_split_nodes_between_workloads iter
            (group_nodes_by_switch allocated node_to_switch) node_to_switch hierarchy wa wb = (A', B')"
    from compact_split_subset [OF this assms(2)] x show "x \<notin> set A'" "x \<notin> set B'" by blast+
  qed
qed

theorem missing_node_never_placed_witness:
  "[''n1'' \<mapsto> ''s1'', ''n2'' \<mapsto> ''s2''] ''x'' = None \<and> valid_iter sorted_list_of_set
   \<and> evenly_split_nodes_between_workloads sorted_list_of_set round_half_even
        (group_nodes_by_switch [''n1'', ''n2'', ''x''] [''n1'' \<mapsto> ''s1'', ''n2'' \<mapsto> ''s2'']) 1 1
       = Inr ([''n2''], [''n1''])
   \<and> compact_split_nodes_between_workloads sorted_list_of_set
        (group_nodes_by_switch [''n1'', ''n2'', ''x''] [''n1'' \<mapsto> ''s1'', ''n2'' \<mapsto> ''s2''])
        [''n1'' \<mapsto> ''s1'', ''n2'' \<mapsto> ''s2''] \<lparr>parents = None, children = None\<rparr> 1 1
       = ([''n1''], [''n2''])
   \<and> ''x'' \<notin> set [''n2''] \<and> ''x'' \<notin> set [''n1'']"
proof -
  let ?m = "[''n1'' \<mapsto> ''s1'', ''n2'' \<mapsto> ''s2'']"
  let ?al = "[''n1'', ''n2'', ''x'']"
  have h1: "?m ''x'' = None" by simp
  have h2: "valid_iter sorted_list_of_set" by (rule valid_iter_sorted_list_of_set)
  have g: "group_nodes_by_switch ?al ?m = [(''s1'', [''n1'']), (''s2'', [''n2''])]"
    by (simp add: group_nodes_by_switch_def group_nodes_loop_def group_step_def truthy_def)
  have e: "evenly_split_nodes_between_workloads sorted_list_of_set round_half_even
        (group_nodes_by_switch ?al ?m) 1 1 = Inr ([''n2''], [''n1''])"
    unfolding g by code_simp
  have c: "compact_split_nodes_between_workloads sorted_list_of_set
        (group_nodes_by_switch ?al ?m) ?m \<lparr>parents = None, children = None\<rparr> 1 1 = ([''n1''], [''n2''])"
    unfolding g
    by (simp add: compact_split_nodes_between_workloads_def compact_place_def find_largest_switch_def
         largest_step_def truthy_def nodes_of_def remaining_switches_def calculate_switch_distance_def
         slice_to_def slice_from_def slice_bound_def Let_def)
  from missing_node_never_placed [where node_to_switch = ?m and x = "''x''"
      and iter = sorted_list_of_set and rnd = round_half_even and allocated = ?al
      and wa = 1 and wb = 1 and A = "[''n2'']" and B = "[''n1'']"
      and hierarchy = "\<lparr>parents = None, children = None\<rparr>" and A' = "[''n1'']" and B' = "[''n2'']",
      OF h1 h2] e c
  have "''x'' \<notin> set [''n2''] \<and> ''x'' \<notin> set [''n1'']" by blast
  with h1 h2 e c show ?thesis by blast
qed

text \<open>
  The claim as stated fails: \<open>x\<close> is allocated but unknown to the topology; both strategies
  return without \<open>x\<close> in workload B (or anywhere).
\<close>

theorem missing_node_counterexample:
  "''x'' \<in> set [''n1'', ''n2'', ''x''] \<and> [''n1'' \<mapsto> ''s1'', ''n2'' \<mapsto> ''s2''] ''x'' = None
   \<and> snd (compact_split_nodes_between_workloads sorted_list_of_set
        (group_nodes_by_switch [''n1'', ''n2'', ''x''] [''n1'' \<mapsto> ''s1'', ''n2'' \<mapsto> ''s2''])
        [''n1'' \<mapsto> ''s1'', ''n2'' \<mapsto> ''s2''] \<lparr>parents = None, children = None\<rparr> 1 1)
       = [''n2'']
   \<and> evenly_split_nodes_between_workloads sorted_list_of_set round_half_even
        (group_nodes_by_switch [''n1'', ''n2'', ''x''] [''n1'' \<mapsto> ''s1'', ''n2'' \<mapsto> ''s2'']) 1 1
       = Inr ([''n2''], [''n1''])
   \<and> ''x'' \<notin> set [''n2''] \<and> ''x'' \<notin> set [''n1'']"
proof -
  let ?m = "[''n1'' \<mapsto> ''s1'', ''n2'' \<mapsto> ''s2'']"
  let ?al = "[''n1'', ''n2'', ''x'']"
  have g: "group_nodes_by_switch ?al ?m = [(''s1'', [''n1'']), (''s2'', [''n2''])]"
    by (simp add: group_nodes_by_switch_def group_nodes_loop_def group_step_def truthy_def)
  have e: "evenly_split_nodes_between_workloads sorted_list_of_set round_half_even
        (group_nodes_by_switch ?al ?m) 1 1 = Inr ([''n2''], [''n1''])"
    unfolding g by code_simp
  have c: "compact_split_nodes_between_workloads sorted_list_of_set
        (group_nodes_by_switch ?al ?m) ?m \<lparr>parents = None, children = None\<rparr> 1 1 = ([''n1''], [''n2''])"
    unfolding g
    by (simp add: compact_split_nodes_between_workloads_def compact_place_def find_largest_switch_def
         largest_step_def truthy_def nodes_of_def remaining_switches_def calculate_switch_distance_def
         slice_to_def slice_from_def slice_bound_def Let_def)
  from e c show ?thesis by simp
qed

lemma nodes_of_perm:
  assumes "mset stn' = mset stn" and "distinct (map fst stn)"
  shows "nodes_of stn' sw = nodes_of stn sw"
proof -
  from assms(1) have "mset (map fst stn') = mset (map fst stn)" by simp
  then have "distinct (map fst stn')" using assms(2) by (metis mset_eq_imp_distinct_iff)
  moreover from assms(1) have "set stn' = set stn" by (rule mset_eq_setD)
  ultimately have "map_of stn' = map_of stn" using assms(2) by (simp add: map_of_inject_set)
  then show ?thesis by (simp add: nodes_of_def)
qed

lemma even_loop_cong:
  assumes "\<And>sw. nodes_of stn' sw = nodes_of stn sw"
  shows "even_loop rnd stn' wa wb sws st = even_loop rnd stn wa wb sws st"
proof (induction sws arbitrary: st)
  case Nil
  then show ?case by simp
next
  case (Cons sw rest)
  obtain A B al ta tb where st: "st = (A, B, al, ta, tb)" by (cases st)
  show ?case
    unfolding st even_loop.simps assms Cons.IH ..
qed

lemma even_split_perm:
  assumes "mset stn' = mset stn" and "distinct (map fst stn)"
  shows "evenly_split_nodes_between_workloads iter rnd stn' wa wb
           = evenly_split_nodes_between_workloads iter rnd stn wa wb"
proof (cases "length stn = 1")
  case True
  then obtain p where "stn = [p]" by (cases stn) auto
  with assms(1) have "stn' = stn" by simp
  then show ?thesis by simp
next
  case False
  have len: "length stn' = length stn" using assms(1) by (rule mset_eq_length)
  have keys: "sort (map fst stn') = sort (map fst stn)"
  proof -
    from assms(1) have "mset (map fst stn') = mset (map fst stn)" by simp
    then show ?thesis by (metis mset_sort properties_for_sort sorted_sort)
  qed
  have n: "nodes_of stn' sw = nodes_of stn sw" for sw by (rule nodes_of_perm [OF assms])
  show ?thesis
    unfolding evenly_split_nodes_between_workloads_def len keys n even_loop_cong [of stn' stn, OF n]
    using False by simp
qed

text \<open>
  C9.  Both strategies are deterministic.  The only unordered collections they iterate are
  the sets of unallocated nodes, and these are sorted first, so any two iteration orders
  of the sets give the same two output lists.  The switch grouping is a \<open>dict\<close>, which
  iterates in insertion order; the even strategy sorts its keys and so does not depend on
  that order either.
\<close>

lemma sort_iter_diff:
  "valid_iter iter \<Longrightarrow> sort (iter (set xs - S)) = sorted_list_of_set (set xs - S)"
  by (rule sort_iter) simp_all

lemma even_iter_canon:
  assumes "valid_iter iter"
  shows "evenly_split_nodes_between_workloads iter rnd stn wa wb
           = evenly_split_nodes_between_workloads sorted_list_of_set rnd stn wa wb"
proof (cases "even_loop rnd stn wa wb (sort (map fst stn)) ([], [], {}, 0, 0)")
  case (Inl e)
  then show ?thesis by (simp add: evenly_split_nodes_between_workloads_def Let_def)
next
  case (Inr st)
  obtain A B al ta tb where st: "st = (A, B, al, ta, tb)" by (cases st)
  show ?thesis
    unfolding evenly_split_nodes_between_workloads_def Let_def Inr st
    by (simp only: sum.case prod.case sort_iter_diff [OF assms]
          sort_iter_diff [OF valid_iter_sorted_list_of_set])
qed

lemma compact_place_iter_canon:
  assumes "valid_iter iter"
  shows "compact_place iter stn h all lg wa wb = compact_place sorted_list_of_set stn h all lg wa wb"
  unfolding compact_place_def Let_def
  by (simp only: sort_iter_diff [OF assms] sort_iter_diff [OF valid_iter_sorted_list_of_set])

lemma compact_iter_canon:
  assumes "valid_iter iter"
  shows "compact_split_nodes_between_workloads iter stn n2s h wa wb
           = compact_split_nodes_between_workloads sorted_list_of_set stn n2s h wa wb"
  unfolding compact_split_nodes_between_workloads_def Let_def
  by (simp only: compact_place_iter_canon [OF assms])

theorem strategies_deterministic:
  assumes "valid_iter iter1" and "valid_iter iter2"
  shows "evenly_split_nodes_between_workloads iter1 rnd stn wa wb
           = evenly_split_nodes_between_workloads iter2 rnd stn wa wb
       \<and> compact_split_nodes_between_workloads iter1 stn node_to_switch hierarchy wa wb
           = compact_split_nodes_between_workloads iter2 stn node_to_switch hierarchy wa wb
       \<and> (mset stn' = mset stn \<and> distinct (map fst stn)
            \<longrightarrow> evenly_split_nodes_between_workloads iter1 rnd stn' wa wb
                = evenly_split_nodes_between_workloads iter2 rnd stn wa wb)"
proof (intro conjI impI)
  show e: "evenly_split_nodes_between_workloads iter1 rnd stn wa wb
      = evenly_split_nodes_between_workloads iter2 rnd stn wa wb"
    by (simp only: even_iter_canon [OF assms(1)] even_iter_canon [OF assms(2)])
  show "compact_split_nodes_between_workloads iter1 stn node_to_switch hierarchy wa wb
      = compact_split_nodes_between_workloads iter2 stn node_to_switch hierarchy wa wb"
    by (simp only: compact_iter_canon [OF assms(1)] compact_iter_canon [OF assms(2)])
  assume "mset stn' = mset stn \<and> distinct (map fst stn)"
  then have "evenly_split_nodes_between_workloads iter1 rnd stn' wa wb
      = evenly_split_nodes_between_workloads iter1 rnd stn wa wb"
    by (elim conjE) (rule even_split_perm)
  then show "evenly_split_nodes_between_workloads iter1 rnd stn' wa wb
      = evenly_split_nodes_between_workloads iter2 rnd stn wa wb" using e by (rule trans)
qed


lemma valid_iter_rev: "valid_iter (\<lambda>S. rev (sorted_list_of_set S))"
  by (simp add: valid_iter_def)

theorem strategies_deterministic_witness:
  "valid_iter sorted_list_of_set \<and> valid_iter (\<lambda>S. rev (sorted_list_of_set S))
   \<and> evenly_split_nodes_between_workloads (\<lambda>S. rev (sorted_list_of_set S)) round_half_even
        [(''s1'', [''a'']), (''s2'', [''b'']), (''s3'', [''c''])] 1 0
      = Inr ([''a''], [''b'', ''c''])
   \<and> compact_split_nodes_between_workloads (\<lambda>S. rev (sorted_list_of_set S))
        [(''s1'', [''a'']), (''s2'', [''b'']), (''s3'', [''c''])] Map.empty
        \<lparr>parents = None, children = None\<rparr> 1 2
      = ([''a''], [''b'', ''c''])
   \<and> mset [(''s3'', [''c'']), (''s1'', [''a'']), (''s2'', [''b''])]
       = mset [(''s1'', [''a'']), (''s2'', [''b'']), (''s3'', [''c''])]
   \<and> distinct (map fst [(''s1'', [''a'']), (''s2'', [''b'']), (''s3'', [''c''])])
   \<and> evenly_split_nodes_between_workloads sorted_list_of_set round_half_even
        [(''s3'', [''c'']), (''s1'', [''a'']), (''s2'', [''b''])] 1 0
      = Inr ([''a''], [''b'', ''c''])"
proof -
  let ?g = "[(''s1'', [''a'']), (''s2'', [''b'']), (''s3'', [''c''])]"
  let ?g' = "[(''s3'', [''c'']), (''s1'', [''a'']), (''s2'', [''b''])]"
  have h3: "mset ?g' = mset ?g" by simp
  have h4: "distinct (map fst ?g)" by simp
  have h1: "valid_iter sorted_list_of_set" by (rule valid_iter_sorted_list_of_set)
  have h2: "valid_iter (\<lambda>S. rev (sorted_list_of_set S))" by (rule valid_iter_rev)
  have e: "evenly_split_nodes_between_workloads sorted_list_of_set round_half_even ?g 1 0
      = Inr ([''a''], [''b'', ''c''])" by code_simp
  have c: "compact_split_nodes_between_workloads sorted_list_of_set ?g Map.empty
        \<lparr>parents = None, children = None\<rparr> 1 2 = ([''a''], [''b'', ''c''])" by code_simp
  from strategies_deterministic [OF h1 h2, where rnd = round_half_even and stn = ?g and wa = 1 and wb = 0] e
  have e': "evenly_split_nodes_between_workloads (\<lambda>S. rev (sorted_list_of_set S)) round_half_even ?g 1 0
      = Inr ([''a''], [''b'', ''c''])" by simp
  from strategies_deterministic [OF h1 h2, where stn = ?g and wa = 1 and wb = 2
      and node_to_switch = Map.empty and hierarchy = "\<lparr>parents = None, children = None\<rparr>"] c
  have c': "compact_split_nodes_between_workloads (\<lambda>S. rev (sorted_list_of_set S)) ?g Map.empty
        \<lparr>parents = None, children = None\<rparr> 1 2 = ([''a''], [''b'', ''c''])" by simp
  from strategies_deterministic [OF h1 h1, where rnd = round_half_even and stn = ?g and stn' = ?g'
      and wa = 1 and wb = 0] h3 h4 e
  have p: "evenly_split_nodes_between_workloads sorted_list_of_set round_half_even ?g' 1 0
      = Inr ([''a''], [''b'', ''c''])" by simp
  from h1 h2 h3 h4 e' c' p show ?thesis by blast
qed

subsection \<open>The largest switch in the compact strategy\<close>

text \<open>The fill loop takes a prefix of the other switches' sorted nodes, in the order given.\<close>

lemma compact_fill_take:
  "0 \<le> k \<Longrightarrow>
   compact_fill stn sws (A, k) =
     (A @ take (nat k) (concat (map (\<lambda>sw. sort (nodes_of stn sw)) sws)),
      max 0 (k - int (length (concat (map (\<lambda>sw. sort (nodes_of stn sw)) sws)))))"
proof (induction sws arbitrary: A k)
  case Nil
  then show ?case by simp
next
  case (Cons sw rest)
  let ?ns = "sort (nodes_of stn sw)"
  let ?C = "concat (map (\<lambda>sw. sort (nodes_of stn sw)) rest)"
  show ?case
  proof (cases "int (length ?ns) \<le> k")
    case True
    note le = this
    show ?thesis
    proof (cases "k - int (length ?ns) \<le> 0")
      case True
      with le have eq: "k = int (length ?ns)" by simp
      have "compact_fill stn (sw # rest) (A, k) = (A @ ?ns, 0)"
        using le True by (simp add: Let_def)
      then show ?thesis using eq by simp
    next
      case False
      with le have step: "compact_fill stn (sw # rest) (A, k)
          = compact_fill stn rest (A @ ?ns, k - int (length ?ns))"
        by (simp add: Let_def)
      from False have k': "0 \<le> k - int (length ?ns)" by simp
      have n: "nat (k - int (length (nodes_of stn sw))) = nat k - length (nodes_of stn sw)"
        using le by simp
      show ?thesis
        unfolding step Cons.IH [OF k'] using le
        by (simp add: n diff_diff_eq)
    qed
  next
    case False
    then have "compact_fill stn (sw # rest) (A, k) = (A @ slice_to ?ns k, 0)"
      by (simp add: Let_def)
    moreover have "slice_to ?ns k = take (nat k) ?ns"
      using Cons.prems by (rule slice_to_nonneg)
    ultimately show ?thesis using False Cons.prems by simp
  qed
qed

text \<open>Sorting the pairs by distance and dropping the distances is a stable sort of the
  switches by their distance.\<close>

lemma map_fst_insort_key:
  "\<forall>y \<in> set ys. snd y = f (fst y) \<Longrightarrow>
   map fst (insort_key snd (x, f x) ys) = insort_key f x (map fst ys)"
  by (induction ys) auto

lemma map_fst_sort_key:
  "map fst (sort_key snd (map (\<lambda>x. (x, f x)) xs)) = sort_key f xs"
proof (induction xs)
  case Nil
  then show ?case by simp
next
  case (Cons x xs)
  have "\<forall>y \<in> set (sort_key snd (map (\<lambda>x. (x, f x)) xs)). snd y = f (fst y)" by auto
  from map_fst_insort_key [OF this, of x] Cons.IH show ?case by simp
qed

lemma map_fst_remaining_switches:
  "map fst (remaining_switches stn lg h)
     = sort_key (\<lambda>sw. calculate_switch_distance lg sw h) (filter (\<lambda>sw. sw \<noteq> lg) (map fst stn))"
  unfolding remaining_switches_def by (rule map_fst_sort_key)

lemma compact_place_a:
  assumes ne: "nodes_of stn lg \<noteq> []" and wa: "1 \<le> wa" and wb: "0 \<le> wb"
  shows "fst (compact_place iter stn h all lg wa wb) =
     hd (sort (nodes_of stn lg)) #
       take (nat (wa - 1))
         (concat (map (\<lambda>sw. sort (nodes_of stn sw))
            (sort_key (\<lambda>sw. calculate_switch_distance lg sw h) (filter (\<lambda>sw. sw \<noteq> lg) (map fst stn))))
          @ drop (nat wb) (tl (sort (nodes_of stn lg))))"
proof -
  define sorted where "sorted = sort (nodes_of stn lg)"
  define C where "C = concat (map (\<lambda>sw. sort (nodes_of stn sw)) (map fst (remaining_switches stn lg h)))"
  define fl where "fl = min wb (int (length (tl sorted)))"
  define rem where "rem = slice_from (tl sorted) fl"
  define k where "k = wa - 1"
  have k: "0 \<le> k" using wa by (simp add: k_def)
  have fill: "compact_fill stn (map fst (remaining_switches stn lg h)) ([hd sorted], k)
      = ([hd sorted] @ take (nat k) C, max 0 (k - int (length C)))"
    unfolding C_def by (rule compact_fill_take [OF k])
  have rem: "rem = drop (nat wb) (tl sorted)"
  proof -
    have "0 \<le> fl" using wb by (simp add: fl_def)
    then have "rem = drop (nat fl) (tl sorted)" unfolding rem_def by (rule slice_from_nonneg)
    also have "\<dots> = drop (nat wb) (tl sorted)"
    proof (cases "wb \<le> int (length (tl sorted))")
      case True
      then show ?thesis by (simp add: fl_def min_def)
    next
      case False
      then show ?thesis by (simp add: fl_def min_def)
    qed
    finally show ?thesis .
  qed
  have tail: "(if max 0 (k - int (length C)) > 0
                then ([hd sorted] @ take (nat k) C) @ slice_to rem (max 0 (k - int (length C)))
                else [hd sorted] @ take (nat k) C)
              = hd sorted # take (nat k) (C @ rem)"
  proof (cases "k - int (length C) > 0")
    case True
    then have "slice_to rem (max 0 (k - int (length C))) = take (nat k - length C) rem"
      by (simp add: slice_to_nonneg max_def nat_diff_distrib)
    with True show ?thesis by simp
  next
    case False
    then have "nat k \<le> length C" by simp
    with False show ?thesis by simp
  qed
  have "fst (compact_place iter stn h all lg wa wb) = hd sorted # take (nat k) (C @ rem)"
    unfolding compact_place_def Let_def slice_from_one
    using fill tail
    by (simp add: sorted_def fl_def rem_def k_def split: if_splits)
  then show ?thesis
    unfolding rem C_def map_fst_remaining_switches sorted_def k_def .
qed

text \<open>The scan selects the first group of maximal size.\<close>

lemma largest_scan_first:
  "(case foldl largest_step (None, 0) xs of
      (None, m) \<Rightarrow> m = 0 \<and> (\<forall>(k, v) \<in> set xs. v = [])
    | (Some lg, m) \<Rightarrow>
        (\<exists>pre ns post. xs = pre @ (lg, ns) # post \<and> m = length ns \<and> 0 < m
           \<and> (\<forall>(k, v) \<in> set pre. length v < length ns)
           \<and> (\<forall>(k, v) \<in> set post. length v \<le> length ns)))"
proof (induction xs rule: rev_induct)
  case Nil
  then show ?case by simp
next
  case (snoc x xs)
  obtain k v where x: "x = (k, v)" by (cases x)
  obtain r m where st: "foldl largest_step (None, 0) xs = (r, m)"
    by (cases "foldl largest_step (None, 0) xs")
  show ?case
  proof (cases "length v > m")
    case True
    then have new: "foldl largest_step (None, 0) (xs @ [x]) = (Some k, length v)"
      by (simp add: st x largest_step_def)
    have small: "\<forall>(k', v') \<in> set xs. length v' < length v"
    proof (cases r)
      case None
      with snoc.IH st True show ?thesis by auto
    next
      case (Some lg)
      with snoc.IH st obtain pre ns post where
        "xs = pre @ (lg, ns) # post" "m = length ns"
        "\<forall>(k, v) \<in> set pre. length v < length ns" "\<forall>(k, v) \<in> set post. length v \<le> length ns"
        by auto
      with True show ?thesis by fastforce
    qed
    have "xs @ [x] = xs @ (k, v) # [] \<and> length v = length v \<and> 0 < length v
        \<and> (\<forall>(k', v') \<in> set xs. length v' < length v)
        \<and> (\<forall>(k', v') \<in> set []. length v' \<le> length v)"
      using small True by (auto simp: x)
    then show ?thesis unfolding new by (simp only: prod.case option.case) blast
  next
    case False
    then have same: "foldl largest_step (None, 0) (xs @ [x]) = (r, m)"
      by (simp add: st x largest_step_def)
    show ?thesis
    proof (cases r)
      case None
      with snoc.IH st False show ?thesis unfolding same by (auto simp: x)
    next
      case (Some lg)
      with snoc.IH st obtain pre ns post where d:
        "xs = pre @ (lg, ns) # post" "m = length ns" "0 < m"
        "\<forall>(k, v) \<in> set pre. length v < length ns" "\<forall>(k, v) \<in> set post. length v \<le> length ns"
        by auto
      have "xs @ [x] = pre @ (lg, ns) # (post @ [x]) \<and> m = length ns \<and> 0 < m
          \<and> (\<forall>(k, v) \<in> set pre. length v < length ns)
          \<and> (\<forall>(k, v) \<in> set (post @ [x]). length v \<le> length ns)"
        using d False by (auto simp: x)
      then show ?thesis unfolding same Some by (simp only: prod.case option.case) blast
    qed
  qed
qed

lemma find_largest_first:
  assumes "find_largest_switch stn = Some lg"
  shows "\<exists>pre ns post. stn = pre @ (lg, ns) # post \<and> ns \<noteq> []
           \<and> (\<forall>(k, v) \<in> set pre. length v < length ns)
           \<and> (\<forall>(k, v) \<in> set post. length v \<le> length ns)"
proof -
  obtain r m where st: "foldl largest_step (None, 0) stn = (r, m)"
    by (cases "foldl largest_step (None, 0) stn")
  with assms have r: "r = Some lg" by (simp add: find_largest_switch_def)
  from largest_scan_first [of stn] show ?thesis
    unfolding st r by (simp only: prod.case option.case) fastforce
qed

text \<open>
  C4 (as amended).  For every input to the compact strategy with at least two switch
  groups (switch names and groups non-empty, as the grouper builds them), the largest
  switch (the first group of maximal size in insertion order) contributes its first
  sorted node as the first node of workload A.  Whenever
  \<open>requested_a \<ge> 1\<close>, \<open>requested_b \<ge> 0\<close> and the largest switch holds at least
  \<open>requested_a + requested_b\<close> nodes, workload B is drawn entirely from that switch: it is
  the \<open>requested_b\<close> sorted nodes after the first.  Workload A is drawn entirely from it
  when \<open>requested_a = 1\<close>.  In general, for \<open>requested_a \<ge> 1\<close> and \<open>requested_b \<ge> 0\<close>, the
  rest of A is the first \<open>requested_a - 1\<close> nodes of this list: the sorted nodes of the
  other switches, switch after switch, the switches ranked by their distance from the
  largest one (in insertion order among equal distances), and after them the sorted nodes
  of the largest switch that follow its first \<open>1 + requested_b\<close>.
\<close>

theorem compact_largest_switch:
  assumes dk: "distinct (map fst stn)" and two: "2 \<le> length stn"
    and wf: "\<forall>(sw, ns) \<in> set stn. sw \<noteq> [] \<and> ns \<noteq> []"
    and res: "compact_split_nodes_between_workloads iter stn node_to_switch hierarchy wa wb = (A, B)"
  shows "\<exists>lg ns. find_largest_switch stn = Some lg \<and> (lg, ns) \<in> set stn
           \<and> (\<forall>(sw', ns') \<in> set stn. length ns' \<le> length ns)
           \<and> A \<noteq> [] \<and> hd A = hd (sort ns) \<and> hd (sort ns) \<in> set ns
           \<and> (1 \<le> wa \<and> 0 \<le> wb \<and> wa + wb \<le> int (length ns)
                \<longrightarrow> B = take (nat wb) (tl (sort ns)) \<and> set B \<subseteq> set ns)
           \<and> (wa = 1 \<longrightarrow> A = [hd (sort ns)])
           \<and> (1 \<le> wa \<and> 0 \<le> wb
                \<longrightarrow> A = hd (sort ns) #
                      take (nat (wa - 1))
                        (concat (map (\<lambda>sw. sort (nodes_of stn sw))
                           (sort_key (\<lambda>sw. calculate_switch_distance lg sw hierarchy)
                              (filter (\<lambda>sw. sw \<noteq> lg) (map fst stn))))
                         @ drop (nat wb) (tl (sort ns))))
           \<and> (\<exists>pre post. stn = pre @ (lg, ns) # post
                  \<and> (\<forall>(sw', ns') \<in> set pre. length ns' < length ns))"
proof -
  from two obtain p where p: "p \<in> set stn" by (cases stn) auto
  have "find_largest_switch stn \<noteq> None"
  proof
    assume "find_largest_switch stn = None"
    from find_largest_None [OF this] p wf show False by fastforce
  qed
  then obtain lg where lg: "find_largest_switch stn = Some lg" by auto
  from find_largest_first [OF lg] obtain pre ns post where
    dec: "stn = pre @ (lg, ns) # post" and ne: "ns \<noteq> []"
    and before: "\<forall>(k, v) \<in> set pre. length v < length ns"
    and after: "\<forall>(k, v) \<in> set post. length v \<le> length ns" by blast
  have mem: "(lg, ns) \<in> set stn" by (simp add: dec)
  have mx: "\<forall>(sw', ns') \<in> set stn. length ns' \<le> length ns"
    using before after unfolding dec by fastforce
  from mem wf have lgne: "lg \<noteq> []" by auto
  have nodes: "nodes_of stn lg = ns" by (rule nodes_of_member [OF dk mem])
  have one: "length stn \<noteq> 1" using two by simp
  have cp: "compact_place iter stn hierarchy (concat (map snd stn)) lg wa wb = (A, B)"
    using res one lg lgne ne nodes
    by (simp add: compact_split_nodes_between_workloads_def truthy_def)
  have nn: "nodes_of stn lg \<noteq> []" using ne nodes by simp
  have head: "A \<noteq> [] \<and> hd A = hd (sort ns)"
    using compact_place_head [OF nn cp] unfolding nodes .
  have hdmem: "hd (sort ns) \<in> set ns"
  proof -
    have "sort ns \<noteq> []" using ne by (metis length_0_conv length_sort)
    then have "hd (sort ns) \<in> set (sort ns)" by (rule hd_in_set)
    then show ?thesis by simp
  qed
  have b: "B = take (nat wb) (tl (sort ns)) \<and> set B \<subseteq> set ns"
    if "1 \<le> wa \<and> 0 \<le> wb \<and> wa + wb \<le> int (length ns)"
  proof -
    from that have "snd (compact_place iter stn hierarchy (concat (map snd stn)) lg wa wb)
        = take (nat wb) (tl (sort (nodes_of stn lg)))"
      by (intro compact_place_b [OF nn]) (simp_all add: nodes)
    then have B: "B = take (nat wb) (tl (sort ns))" by (simp add: cp nodes)
    have "set (take (nat wb) (tl (sort ns))) \<subseteq> set (tl (sort ns))" by (rule set_take_subset)
    moreover have "set (tl (sort ns)) \<subseteq> set (sort ns)"
      by (metis list.set_sel(2) subsetI tl_Nil)
    ultimately show ?thesis using B by auto
  qed
  have a: "A = [hd (sort ns)]" if "wa = 1"
    using compact_place_a_one [of iter stn hierarchy "concat (map snd stn)" lg wb] cp that
    by (simp add: nodes)
  have rest: "A = hd (sort ns) #
      take (nat (wa - 1))
        (concat (map (\<lambda>sw. sort (nodes_of stn sw))
           (sort_key (\<lambda>sw. calculate_switch_distance lg sw hierarchy)
              (filter (\<lambda>sw. sw \<noteq> lg) (map fst stn))))
         @ drop (nat wb) (tl (sort ns)))"
    if "1 \<le> wa \<and> 0 \<le> wb"
  proof -
    from that have "1 \<le> wa" "0 \<le> wb" by simp_all
    from compact_place_a [OF nn this, of iter hierarchy "concat (map snd stn)"]
    show ?thesis unfolding cp fst_conv nodes .
  qed
  show ?thesis
  proof (intro exI conjI)
    show "find_largest_switch stn = Some lg" by (rule lg)
    show "(lg, ns) \<in> set stn" by (rule mem)
    show "\<forall>(sw', ns') \<in> set stn. length ns' \<le> length ns" by (rule mx)
    show "A \<noteq> []" "hd A = hd (sort ns)" using head by simp_all
    show "hd (sort ns) \<in> set ns" by (rule hdmem)
    show "1 \<le> wa \<and> 0 \<le> wb \<and> wa + wb \<le> int (length ns)
        \<longrightarrow> B = take (nat wb) (tl (sort ns)) \<and> set B \<subseteq> set ns"
      using b by (rule impI)
    show "wa = 1 \<longrightarrow> A = [hd (sort ns)]" using a by (rule impI)
    show "1 \<le> wa \<and> 0 \<le> wb
        \<longrightarrow> A = hd (sort ns) #
              take (nat (wa - 1))
                (concat (map (\<lambda>sw. sort (nodes_of stn sw))
                   (sort_key (\<lambda>sw. calculate_switch_distance lg sw hierarchy)
                      (filter (\<lambda>sw. sw \<noteq> lg) (map fst stn))))
                 @ drop (nat wb) (tl (sort ns)))"
      using rest by (rule impI)
    show "stn = pre @ (lg, ns) # post" by (rule dec)
    show "\<forall>(sw', ns') \<in> set pre. length ns' < length ns" by (rule before)
  qed
qed



theorem compact_largest_switch_witness:
  "distinct (map fst [(''s1'', [''c'', ''a'', ''b'']), (''s2'', [''d''])])
   \<and> (2::nat) \<le> length [(''s1'', [''c'', ''a'', ''b'']), (''s2'', [''d''])]
   \<and> ''s1'' \<noteq> [] \<and> [''c'', ''a'', ''b''] \<noteq> [] \<and> ''s2'' \<noteq> [] \<and> [''d''] \<noteq> []
   \<and> compact_split_nodes_between_workloads sorted_list_of_set
         [(''s1'', [''c'', ''a'', ''b'']), (''s2'', [''d''])] Map.empty
         \<lparr>parents = None, children = None\<rparr> 1 2 = ([''a''], [''b'', ''c''])
   \<and> find_largest_switch [(''s1'', [''c'', ''a'', ''b'']), (''s2'', [''d''])] = Some ''s1''
   \<and> hd [''a''] = hd (sort [''c'', ''a'', ''b''])
   \<and> [''b'', ''c''] = take (nat 2) (tl (sort [''c'', ''a'', ''b'']))
   \<and> [''a''] = [hd (sort [''c'', ''a'', ''b''])]
   \<and> distinct (map fst [(''s1'', [''c'', ''a'', ''b'']), (''s2'', [''d'']), (''s3'', [''e''])])
   \<and> (2::nat) \<le> length [(''s1'', [''c'', ''a'', ''b'']), (''s2'', [''d'']), (''s3'', [''e''])]
   \<and> ''s3'' \<noteq> [] \<and> [''e''] \<noteq> []
   \<and> compact_split_nodes_between_workloads sorted_list_of_set
         [(''s1'', [''c'', ''a'', ''b'']), (''s2'', [''d'']), (''s3'', [''e''])] Map.empty
         \<lparr>parents = Some [''s1'' \<mapsto> ''p1'', ''s2'' \<mapsto> ''p2'', ''s3'' \<mapsto> ''p1''], children = None\<rparr> 2 1
       = ([''a'', ''e''], [''b''])
   \<and> find_largest_switch [(''s1'', [''c'', ''a'', ''b'']), (''s2'', [''d'']), (''s3'', [''e''])] = Some ''s1''
   \<and> sort_key (\<lambda>sw. calculate_switch_distance ''s1'' sw
           \<lparr>parents = Some [''s1'' \<mapsto> ''p1'', ''s2'' \<mapsto> ''p2'', ''s3'' \<mapsto> ''p1''], children = None\<rparr>)
         (filter (\<lambda>sw. sw \<noteq> ''s1'')
           (map fst [(''s1'', [''c'', ''a'', ''b'']), (''s2'', [''d'']), (''s3'', [''e''])]))
       = [''s3'', ''s2'']
   \<and> [''b''] = take (nat 1) (tl (sort [''c'', ''a'', ''b'']))
   \<and> [''a'', ''e''] = hd (sort [''c'', ''a'', ''b'']) #
         take (nat (2 - 1))
           (concat (map (\<lambda>sw. sort (nodes_of
                [(''s1'', [''c'', ''a'', ''b'']), (''s2'', [''d'']), (''s3'', [''e''])] sw))
              (sort_key (\<lambda>sw. calculate_switch_distance ''s1'' sw
                  \<lparr>parents = Some [''s1'' \<mapsto> ''p1'', ''s2'' \<mapsto> ''p2'', ''s3'' \<mapsto> ''p1''], children = None\<rparr>)
                (filter (\<lambda>sw. sw \<noteq> ''s1'')
                  (map fst [(''s1'', [''c'', ''a'', ''b'']), (''s2'', [''d'']), (''s3'', [''e''])]))))
            @ drop (nat 1) (tl (sort [''c'', ''a'', ''b''])))"
proof -
  let ?g = "[(''s1'', [''c'', ''a'', ''b'']), (''s2'', [''d''])]"
  let ?g3 = "[(''s1'', [''c'', ''a'', ''b'']), (''s2'', [''d'']), (''s3'', [''e''])]"
  let ?h = "\<lparr>parents = Some [''s1'' \<mapsto> ''p1'', ''s2'' \<mapsto> ''p2'', ''s3'' \<mapsto> ''p1''], children = None\<rparr>"
  have n1: "''s1'' \<noteq> []" and n2: "[''c'', ''a'', ''b''] \<noteq> []"
    and n3: "''s2'' \<noteq> []" and n4: "[''d''] \<noteq> []"
    and n5: "''s3'' \<noteq> []" and n6: "[''e''] \<noteq> []" by simp_all
  have h1: "distinct (map fst ?g)" by simp
  have h2: "2 \<le> length ?g" by simp
  have h3: "\<forall>(sw, ns) \<in> set ?g. sw \<noteq> [] \<and> ns \<noteq> []" by simp
  have h4: "compact_split_nodes_between_workloads sorted_list_of_set ?g Map.empty
         \<lparr>parents = None, children = None\<rparr> 1 2 = ([''a''], [''b'', ''c''])" by code_simp
  have l: "find_largest_switch ?g = Some ''s1''" by code_simp
  from compact_largest_switch [OF h1 h2 h3 h4]
  obtain lg ns pre post where lg: "find_largest_switch ?g = Some lg" and mem: "(lg, ns) \<in> set ?g"
    and "\<forall>(sw', ns') \<in> set ?g. length ns' \<le> length ns"
    and "[''a''] \<noteq> []" and hd: "hd [''a''] = hd (sort ns)" and "hd (sort ns) \<in> set ns"
    and b: "1 \<le> (1::int) \<and> 0 \<le> (2::int) \<and> (1::int) + 2 \<le> int (length ns)
             \<longrightarrow> [''b'', ''c''] = take (nat 2) (tl (sort ns)) \<and> set [''b'', ''c''] \<subseteq> set ns"
    and a: "(1::int) = 1 \<longrightarrow> [''a''] = [hd (sort ns)]"
    and "1 \<le> (1::int) \<and> 0 \<le> (2::int)
           \<longrightarrow> [''a''] = hd (sort ns) #
                 take (nat (1 - 1))
                   (concat (map (\<lambda>sw. sort (nodes_of ?g sw))
                      (sort_key (\<lambda>sw. calculate_switch_distance lg sw \<lparr>parents = None, children = None\<rparr>)
                         (filter (\<lambda>sw. sw \<noteq> lg) (map fst ?g))))
                    @ drop (nat 2) (tl (sort ns)))"
    and "?g = pre @ (lg, ns) # post" and "\<forall>(sw', ns') \<in> set pre. length ns' < length ns"
    by (elim exE conjE)
  from lg l have "lg = ''s1''" by simp
  with mem have ns: "ns = [''c'', ''a'', ''b'']" by simp
  from hd have c1: "hd [''a''] = hd (sort [''c'', ''a'', ''b''])" unfolding ns .
  from b have c2: "[''b'', ''c''] = take (nat 2) (tl (sort [''c'', ''a'', ''b'']))"
    unfolding ns by simp
  from a have c3: "[''a''] = [hd (sort [''c'', ''a'', ''b''])]" unfolding ns by simp
  have k1: "distinct (map fst ?g3)" by simp
  have k2: "2 \<le> length ?g3" by simp
  have k3: "\<forall>(sw, ns) \<in> set ?g3. sw \<noteq> [] \<and> ns \<noteq> []" by simp
  have k4: "compact_split_nodes_between_workloads sorted_list_of_set ?g3 Map.empty ?h 2 1
      = ([''a'', ''e''], [''b''])" by code_simp
  have l3: "find_largest_switch ?g3 = Some ''s1''" by code_simp
  have r3: "sort_key (\<lambda>sw. calculate_switch_distance ''s1'' sw ?h)
      (filter (\<lambda>sw. sw \<noteq> ''s1'') (map fst ?g3)) = [''s3'', ''s2'']" by code_simp
  from compact_largest_switch [OF k1 k2 k3 k4]
  obtain lg' ns' pre' post' where lg': "find_largest_switch ?g3 = Some lg'" and mem': "(lg', ns') \<in> set ?g3"
    and "\<forall>(sw', ns'') \<in> set ?g3. length ns'' \<le> length ns'"
    and "[''a'', ''e''] \<noteq> []" and "hd [''a'', ''e''] = hd (sort ns')" and "hd (sort ns') \<in> set ns'"
    and b': "1 \<le> (2::int) \<and> 0 \<le> (1::int) \<and> (2::int) + 1 \<le> int (length ns')
             \<longrightarrow> [''b''] = take (nat 1) (tl (sort ns')) \<and> set [''b''] \<subseteq> set ns'"
    and "(2::int) = 1 \<longrightarrow> [''a'', ''e''] = [hd (sort ns')]"
    and a': "1 \<le> (2::int) \<and> 0 \<le> (1::int)
           \<longrightarrow> [''a'', ''e''] = hd (sort ns') #
                 take (nat (2 - 1))
                   (concat (map (\<lambda>sw. sort (nodes_of ?g3 sw))
                      (sort_key (\<lambda>sw. calculate_switch_distance lg' sw ?h)
                         (filter (\<lambda>sw. sw \<noteq> lg') (map fst ?g3))))
                    @ drop (nat 1) (tl (sort ns')))"
    and "?g3 = pre' @ (lg', ns') # post'" and "\<forall>(sw', ns'') \<in> set pre'. length ns'' < length ns'"
    by (elim exE conjE)
  from lg' l3 have lg3: "lg' = ''s1''" by simp
  with mem' have ns3: "ns' = [''c'', ''a'', ''b'']" by simp
  from b' have d1: "[''b''] = take (nat 1) (tl (sort [''c'', ''a'', ''b'']))"
    unfolding ns3 by simp
  have "1 \<le> (2::int) \<and> 0 \<le> (1::int)" by simp
  with a' have d2: "[''a'', ''e''] = hd (sort [''c'', ''a'', ''b'']) #
         take (nat (2 - 1))
           (concat (map (\<lambda>sw. sort (nodes_of ?g3 sw))
              (sort_key (\<lambda>sw. calculate_switch_distance ''s1'' sw ?h)
                (filter (\<lambda>sw. sw \<noteq> ''s1'') (map fst ?g3))))
            @ drop (nat 1) (tl (sort [''c'', ''a'', ''b''])))"
    unfolding ns3 lg3 by (rule mp)
  from h1 h2 n1 n2 n3 n4 h4 l c1 c2 c3 k1 k2 n5 n6 k4 l3 r3 d1 d2 show ?thesis by (intro conjI)
qed

text \<open>
  The claim as stated fails: the largest switch \<open>s1\<close> holds three nodes, which covers
  \<open>requested_a + requested_b = 2 + 1\<close>, yet workload A receives node \<open>d\<close> of switch \<open>s2\<close>.
\<close>

theorem compact_other_switch_counterexample:
  "find_largest_switch [(''s1'', [''a'', ''b'', ''c'']), (''s2'', [''d''])] = Some ''s1''
   \<and> (2::int) + 1 \<le> int (length [''a'', ''b'', ''c''])
   \<and> compact_split_nodes_between_workloads sorted_list_of_set
        [(''s1'', [''a'', ''b'', ''c'']), (''s2'', [''d''])] Map.empty
        \<lparr>parents = None, children = None\<rparr> 2 1 = ([''a'', ''d''], [''b''])
   \<and> ''d'' \<in> set [''a'', ''d''] \<and> ''d'' \<notin> set [''a'', ''b'', ''c'']"
proof -
  have 1: "find_largest_switch [(''s1'', [''a'', ''b'', ''c'']), (''s2'', [''d''])] = Some ''s1''"
    by code_simp
  have 2: "compact_split_nodes_between_workloads sorted_list_of_set
        [(''s1'', [''a'', ''b'', ''c'']), (''s2'', [''d''])] Map.empty
        \<lparr>parents = None, children = None\<rparr> 2 1 = ([''a'', ''d''], [''b''])"
    by code_simp
  from 1 2 show ?thesis by simp
qed

text \<open>
  C10.  With \<open>requested_a = 0\<close> and two switch groups, workload A is not just the first node
  of the largest switch: the fill loop runs with \<open>nodes_needed = -1\<close>, and the slice
  \<open>switch_nodes[:-1]\<close> adds all but the last node of the nearest other switch.
\<close>

theorem compact_zero_quota_adds_nodes:
  "compact_split_nodes_between_workloads sorted_list_of_set
     [(''s1'', [''a'', ''b'', ''c'']), (''s2'', [''d'', ''e''])] Map.empty
     \<lparr>parents = None, children = None\<rparr> 0 2 = ([''a'', ''d''], [''b'', ''c''])"
  by code_simp

subsection \<open>The hostlist expander\<close>

lemma split_char_nonempty: "split_char c s \<noteq> []"
  by (induction s) (auto split: list.splits)

lemma split_char_notin: "c \<notin> set xs \<Longrightarrow> split_char c xs = [xs]"
  by (induction xs) auto

lemma split_char_append:
  "c \<notin> set xs \<Longrightarrow> split_char c (xs @ c # ys) = xs # split_char c ys"
  by (induction xs) auto

lemma hd_split_char: "hd (split_char c s) = takeWhile (\<lambda>x. x \<noteq> c) s"
  by (induction s) (auto split: list.splits simp: split_char_nonempty)

lemma takeWhile_upto:
  "c \<notin> set xs \<Longrightarrow> takeWhile (\<lambda>x. x \<noteq> c) (xs @ c # ys) = xs"
  by (induction xs) auto

lemma split_char_two: "c \<in> set s \<Longrightarrow> \<exists>p i r. split_char c s = p # i # r"
proof (induction s)
  case Nil
  then show ?case by simp
next
  case (Cons x xs)
  show ?case
  proof (cases "x = c")
    case True
    obtain i r where "split_char c xs = i # r"
      using split_char_nonempty [of c xs] by (cases "split_char c xs") auto
    with True show ?thesis by simp
  next
    case False
    with Cons.prems have "c \<in> set xs" by simp
    from Cons.IH [OF this] obtain p i r where "split_char c xs = p # i # r" by blast
    with False show ?thesis by simp
  qed
qed

text \<open>Every exception of one specification is a \<open>ValueError\<close>.\<close>

lemma expand_spec_error: "expand_spec m spec = Inl e \<Longrightarrow> e = ValueError"
proof -
  assume a: "expand_spec m spec = Inl e"
  show ?thesis
  proof (cases "CHR ''['' \<in> set spec \<and> CHR '']'' \<in> set spec")
    case False
    with a show ?thesis by (simp add: expand_spec_def)
  next
    case True
    then obtain p i r where s: "split_char CHR ''['' spec = p # i # r"
      using split_char_two by blast
    from a True show ?thesis
      unfolding expand_spec_def s
      by (simp add: Let_def split: if_splits list.splits option.splits)
  qed
qed

lemma expand_specs_error:
  "s \<in> set specs \<Longrightarrow> expand_spec m s = Inl ValueError \<Longrightarrow> expand_specs m specs acc = Inl ValueError"
proof (induction specs arbitrary: acc)
  case Nil
  then show ?case by simp
next
  case (Cons x xs)
  show ?case
  proof (cases "expand_spec m x")
    case (Inl e)
    then have "e = ValueError" by (rule expand_spec_error)
    with Inl show ?thesis by simp
  next
    case (Inr names)
    with Cons.prems have "s \<in> set xs" by auto
    from Cons.IH [OF this Cons.prems(2)] Inr show ?thesis by simp
  qed
qed

text \<open>A specification that expands to no names leaves the expansion of the others as it is.\<close>

lemma expand_specs_skip:
  "expand_spec m s = Inr [] \<Longrightarrow>
   expand_specs m (xs @ s # ys) acc = expand_specs m (xs @ ys) acc"
proof (induction xs arbitrary: acc)
  case Nil
  then show ?case by simp
next
  case (Cons x xs)
  show ?case
  proof (cases "expand_spec m x")
    case (Inl e)
    then show ?thesis by simp
  next
    case (Inr names)
    with Cons.IH [OF Cons.prems, of "acc @ names"] show ?thesis by simp
  qed
qed

text \<open>When every specification expands, the result lists their names in order.\<close>

lemma expand_specs_ok:
  "\<forall>s \<in> set specs. expand_spec m s = Inr (names s) \<Longrightarrow>
   expand_specs m specs acc = Inr (acc @ concat (map names specs))"
  by (induction specs arbitrary: acc) auto

text \<open>A specification of the shape \<open>prefix[start-end]suffix\<close>.\<close>

lemma expand_spec_range:
  assumes spec: "spec = prefix @ ''['' @ start_str @ ''-'' @ end_str @ '']'' @ suffix"
    and pre: "CHR ''['' \<notin> set prefix"
    and st: "set start_str \<inter> {CHR ''['', CHR '']'', CHR ''-''} = {}"
    and en: "set end_str \<inter> {CHR ''['', CHR '']'', CHR ''-''} = {}"
  shows "expand_spec m spec =
     (case py_int m start_str of
        None \<Rightarrow> Inl ValueError
      | Some start \<Rightarrow>
          (case py_int m end_str of
             None \<Rightarrow> Inl ValueError
           | Some end \<Rightarrow> Inr (map (\<lambda>num. prefix @ format_0d num (length start_str)) [start..end])))"
proof -
  define rest where "rest = start_str @ ''-'' @ end_str @ '']'' @ suffix"
  define range_part where "range_part = start_str @ ''-'' @ end_str"
  have in1: "CHR ''['' \<in> set spec" and in2: "CHR '']'' \<in> set spec" by (simp_all add: spec)
  have "spec = prefix @ CHR ''['' # rest" by (simp add: spec rest_def)
  then have s1: "split_char CHR ''['' spec = prefix # split_char CHR ''['' rest"
    using split_char_append [OF pre, of rest] by simp
  obtain inner more where s2: "split_char CHR ''['' rest = inner # more"
    using split_char_nonempty [of "CHR ''[''" rest] by (cases "split_char CHR ''['' rest") auto
  have "inner = hd (split_char CHR ''['' rest)" by (simp add: s2)
  then have inner: "inner = range_part @ CHR '']'' # takeWhile (\<lambda>x. x \<noteq> CHR ''['') suffix"
    using st en by (simp add: hd_split_char rest_def range_part_def takeWhile_append2 disjoint_iff)
  have nob: "CHR '']'' \<notin> set range_part" using st en by (auto simp: range_part_def)
  have rp: "hd (split_char CHR '']'' inner) = range_part"
    unfolding inner hd_split_char using nob by (rule takeWhile_upto)
  have dash: "CHR ''-'' \<in> set range_part" by (simp add: range_part_def)
  have "CHR ''-'' \<notin> set start_str" "CHR ''-'' \<notin> set end_str" using st en by auto
  then have s3: "split_char CHR ''-'' range_part = [start_str, end_str]"
    using split_char_append [of "CHR ''-''" start_str end_str]
    by (simp add: split_char_notin range_part_def)
  show ?thesis
    unfolding expand_spec_def s1 s2 using in1 in2 dash
    by (simp only: list.case Let_def rp s3 if_True simp_thms)
qed

text \<open>
  C2 (as amended).  For every hostlist specification containing a bracketed range
  \<open>prefix[start-end]\<close> whose bounds are not numeric (not accepted by \<open>int\<close>), the expansion
  fails with a \<open>ValueError\<close> (the malformed-specification error).  A range whose end is
  smaller than its start is not an error: it adds no names, and the expansion gives what
  the other specifications alone give, that is their names in order when each of them
  expands, and their error otherwise.
\<close>

theorem expand_nodes_range_errors:
  assumes spec: "spec = prefix @ ''['' @ start_str @ ''-'' @ end_str @ '']'' @ suffix"
    and pre: "CHR ''['' \<notin> set prefix"
    and st: "set start_str \<inter> {CHR ''['', CHR '']'', CHR ''-''} = {}"
    and en: "set end_str \<inter> {CHR ''['', CHR '']'', CHR ''-''} = {}"
    and np: "nodes_part_of raw_string = Inr nodes_part"
    and mem: "split_char CHR '','' nodes_part = before @ spec # after"
  shows "(py_int m start_str = None \<or> py_int m end_str = None
            \<longrightarrow> expand_nodes m raw_string = Inl ValueError)
       \<and> (\<forall>start end. py_int m start_str = Some start \<and> py_int m end_str = Some end \<and> end < start
            \<longrightarrow> expand_spec m spec = Inr []
              \<and> expand_nodes m raw_string = expand_specs m (before @ after) []
              \<and> (\<forall>names. (\<forall>s \<in> set (before @ after). expand_spec m s = Inr (names s))
                    \<longrightarrow> expand_nodes m raw_string = Inr (concat (map names (before @ after)))))"
proof (intro conjI impI allI)
  assume "py_int m start_str = None \<or> py_int m end_str = None"
  then have "expand_spec m spec = Inl ValueError"
    unfolding expand_spec_range [OF spec pre st en] by (auto split: option.splits)
  moreover have "spec \<in> set (split_char CHR '','' nodes_part)" by (simp add: mem)
  ultimately have "expand_specs m (split_char CHR '','' nodes_part) [] = Inl ValueError"
    by (rule expand_specs_error [rotated])
  then show "expand_nodes m raw_string = Inl ValueError"
    by (simp add: expand_nodes_def np)
next
  fix start "end" :: int
  assume inv: "py_int m start_str = Some start \<and> py_int m end_str = Some end \<and> end < start"
  then show none: "expand_spec m spec = Inr []"
    unfolding expand_spec_range [OF spec pre st en] by simp
  show others: "expand_nodes m raw_string = expand_specs m (before @ after) []"
  proof -
    have "expand_nodes m raw_string = expand_specs m (split_char CHR '','' nodes_part) []"
      by (simp add: expand_nodes_def np)
    also have "\<dots> = expand_specs m (before @ spec # after) []" by (simp only: mem)
    also have "\<dots> = expand_specs m (before @ after) []" by (rule expand_specs_skip [OF none])
    finally show ?thesis .
  qed
  fix names
  assume "\<forall>s \<in> set (before @ after). expand_spec m s = Inr (names s)"
  from expand_specs_ok [OF this, of "[]"]
  show "expand_nodes m raw_string = Inr (concat (map names (before @ after)))"
    unfolding others by simp
qed


theorem expand_nodes_range_errors_witness:
  "''n[a-3]'' = ''n'' @ ''['' @ ''a'' @ ''-'' @ ''3'' @ '']'' @ []
   \<and> CHR ''['' \<notin> set ''n''
   \<and> set ''a'' \<inter> {CHR ''['', CHR '']'', CHR ''-''} = {}
   \<and> set ''3'' \<inter> {CHR ''['', CHR '']'', CHR ''-''} = {}
   \<and> nodes_part_of ''Nodes=m1,n[a-3] x'' = Inr ''m1,n[a-3]''
   \<and> split_char CHR '','' ''m1,n[a-3]'' = [''m1''] @ ''n[a-3]'' # []
   \<and> py_int 4300 ''a'' = None
   \<and> expand_nodes 4300 ''Nodes=m1,n[a-3] x'' = Inl ValueError
   \<and> ''n[5-3]'' = ''n'' @ ''['' @ ''5'' @ ''-'' @ ''3'' @ '']'' @ []
   \<and> set ''5'' \<inter> {CHR ''['', CHR '']'', CHR ''-''} = {}
   \<and> nodes_part_of ''Nodes=a,n[5-3],b[1-2]'' = Inr ''a,n[5-3],b[1-2]''
   \<and> split_char CHR '','' ''a,n[5-3],b[1-2]'' = [''a''] @ ''n[5-3]'' # [''b[1-2]'']
   \<and> py_int 4300 ''5'' = Some 5 \<and> py_int 4300 ''3'' = Some 3 \<and> (3::int) < 5
   \<and> expand_spec 4300 ''a'' = Inr [''a''] \<and> expand_spec 4300 ''b[1-2]'' = Inr [''b1'', ''b2'']
   \<and> expand_spec 4300 ''n[5-3]'' = Inr []
   \<and> expand_nodes 4300 ''Nodes=a,n[5-3],b[1-2]'' = Inr [''a'', ''b1'', ''b2'']"
proof -
  have a1: "''n[a-3]'' = ''n'' @ ''['' @ ''a'' @ ''-'' @ ''3'' @ '']'' @ []" by simp
  have a2: "CHR ''['' \<notin> set ''n''" by simp
  have a3: "set ''a'' \<inter> {CHR ''['', CHR '']'', CHR ''-''} = {}" by simp
  have a4: "set ''3'' \<inter> {CHR ''['', CHR '']'', CHR ''-''} = {}" by simp
  have a5: "nodes_part_of ''Nodes=m1,n[a-3] x'' = Inr ''m1,n[a-3]''" by code_simp
  have a6: "split_char CHR '','' ''m1,n[a-3]'' = [''m1''] @ ''n[a-3]'' # []" by simp
  have a7: "py_int 4300 ''a'' = None" by code_simp
  from expand_nodes_range_errors [OF a1 a2 a3 a4 a5 a6, of 4300] a7
  have c1: "expand_nodes 4300 ''Nodes=m1,n[a-3] x'' = Inl ValueError" by blast
  have b1: "''n[5-3]'' = ''n'' @ ''['' @ ''5'' @ ''-'' @ ''3'' @ '']'' @ []" by simp
  have b3: "set ''5'' \<inter> {CHR ''['', CHR '']'', CHR ''-''} = {}" by simp
  have b5: "nodes_part_of ''Nodes=a,n[5-3],b[1-2]'' = Inr ''a,n[5-3],b[1-2]''" by code_simp
  have b6: "split_char CHR '','' ''a,n[5-3],b[1-2]'' = [''a''] @ ''n[5-3]'' # [''b[1-2]'']" by simp
  have b7: "py_int 4300 ''5'' = Some 5 \<and> py_int 4300 ''3'' = Some 3 \<and> (3::int) < 5" by code_simp
  have e1: "expand_spec 4300 ''a'' = Inr [''a'']" by code_simp
  have e2: "expand_spec 4300 ''b[1-2]'' = Inr [''b1'', ''b2'']" by code_simp
  let ?names = "\<lambda>s. if s = ''a'' then [''a''] else [''b1'', ''b2'']"
  have others: "\<forall>s \<in> set ([''a''] @ [''b[1-2]'']). expand_spec 4300 s = Inr (?names s)"
    using e1 e2 by simp
  from expand_nodes_range_errors [OF b1 a2 b3 a4 b5 b6, of 4300] b7
  have c2: "expand_spec 4300 ''n[5-3]'' = Inr []"
    and c3: "\<forall>names. (\<forall>s \<in> set ([''a''] @ [''b[1-2]'']). expand_spec 4300 s = Inr (names s))
          \<longrightarrow> expand_nodes 4300 ''Nodes=a,n[5-3],b[1-2]''
              = Inr (concat (map names ([''a''] @ [''b[1-2]''])))"
    by blast+
  from c3 have "(\<forall>s \<in> set ([''a''] @ [''b[1-2]'']). expand_spec 4300 s = Inr (?names s))
      \<longrightarrow> expand_nodes 4300 ''Nodes=a,n[5-3],b[1-2]''
          = Inr (concat (map ?names ([''a''] @ [''b[1-2]''])))" by (rule spec)
  from this others have "expand_nodes 4300 ''Nodes=a,n[5-3],b[1-2]''
      = Inr (concat (map ?names ([''a''] @ [''b[1-2]''])))" by (rule mp)
  then have c4: "expand_nodes 4300 ''Nodes=a,n[5-3],b[1-2]'' = Inr [''a'', ''b1'', ''b2'']" by simp
  from b7 have b7a: "py_int 4300 ''5'' = Some 5" and b7b: "py_int 4300 ''3'' = Some 3"
    and b7c: "(3::int) < 5" by simp_all
  from a1 a2 a3 a4 a5 a6 a7 c1 b1 b3 b5 b6 b7a b7b b7c e1 e2 c2 c4 show ?thesis by (intro conjI)
qed

text \<open>
  The claim as stated fails: the inverted range \<open>n[5-3]\<close> expands to the empty list
  instead of failing.
\<close>

theorem expand_nodes_inverted_counterexample:
  "py_int 4300 ''5'' = Some 5 \<and> py_int 4300 ''3'' = Some 3 \<and> (3::int) < 5
   \<and> expand_nodes 4300 ''Nodes=n[5-3]'' = Inr []"
  by code_simp

text \<open>
  A no-break space ends the token that \<open>split()\<close> takes, \<open>int\<close> skips it around a number,
  and \<open>int\<close> does not skip the separator \<open>0x1C\<close>.
\<close>

lemma expand_nodes_no_break_space:
  "expand_nodes 4300 (''Nodes=n['' @ [CHR 0xA0] @ ''5-7]'') = Inr [''n['']"
  by code_simp

lemma py_int_whitespace:
  "py_int 4300 (CHR 0xA0 # ''5'') = Some 5 \<and> py_int 4300 (CHR 0x1C # ''5'') = None
   \<and> py_int 4300 '' 42 '' = Some 42 \<and> py_int 4300 ''1_0'' = Some 10"
  by code_simp

subsection \<open>Switch distance and lists of parents\<close>

text \<open>
  C3.  Two leaf switches declared with \<open>Switches=p1,p2\<close> and \<open>Switches=p1,p3\<close> have the
  same first-listed parent \<open>p1\<close>, but the distance compares the whole recorded texts
  \<open>p1,p2\<close> and \<open>p1,p3\<close> and returns 2.
\<close>

theorem distance_first_parent_shared:
  "get_parents (record_leaf_parents ''s2'' ''p1,p3''
       (record_leaf_parents ''s1'' ''p1,p2'' empty_hierarchy)) ''s1'' = Some ''p1,p2''
   \<and> get_parents (record_leaf_parents ''s2'' ''p1,p3''
       (record_leaf_parents ''s1'' ''p1,p2'' empty_hierarchy)) ''s2'' = Some ''p1,p3''
   \<and> hd (split_char CHR '','' ''p1,p2'') = ''p1''
   \<and> hd (split_char CHR '','' ''p1,p3'') = ''p1''
   \<and> calculate_switch_distance ''s1'' ''s2''
         (record_leaf_parents ''s2'' ''p1,p3''
            (record_leaf_parents ''s1'' ''p1,p2'' empty_hierarchy)) = 2"
  by code_simp

end
